theory Spec2Isabelle
  imports Main
begin

section \<open>Python values\<close>

text \<open>
  The values that flow through \<open>review_derived_variables.py\<close>: field values read from
  model instances, option values, labels returned by the test methods and the constructor's
  flags. \<open>bool\<close> is a subclass of \<open>int\<close> in Python, so \<open>True == 1\<close> and \<open>False == 0\<close>
  while \<open>1 is True\<close> is false: \<open>py_eq\<close> is Python's \<open>==\<close> (also the equality of
  \<open>in\<close>, \<open>list.index\<close> and dictionary keys), HOL's \<open>=\<close> is \<open>is\<close> on these values.
\<close>

datatype pyval = PyNone | PyBool bool | PyInt int | PyStr string

fun py_key :: "pyval \<Rightarrow> pyval" where
  "py_key (PyBool b) = PyInt (if b then 1 else 0)"
| "py_key v = v"

definition py_eq :: "pyval \<Rightarrow> pyval \<Rightarrow> bool" where
  "py_eq a b = (py_key a = py_key b)"

fun truthy :: "pyval \<Rightarrow> bool" where
  "truthy PyNone = False"
| "truthy (PyBool b) = b"
| "truthy (PyInt i) = (i \<noteq> 0)"
| "truthy (PyStr s) = (s \<noteq> [])"

text \<open>Two lists are \<open>==\<close> when they have the same length and \<open>==\<close> elements.\<close>

definition py_list_eq :: "pyval list \<Rightarrow> pyval list \<Rightarrow> bool" where
  "py_list_eq xs ys = list_all2 py_eq xs ys"

text \<open>\<open>x in found\<close> for a list of lists.\<close>

definition py_in :: "pyval list \<Rightarrow> pyval list list \<Rightarrow> bool" where
  "py_in x found = list_ex (\<lambda>e. py_list_eq e x) found"

text \<open>\<open>xs.index(v)\<close>: the position of the first element \<open>==\<close> to \<open>v\<close>; \<open>None\<close> stands
  for the \<open>ValueError\<close> that Python raises when there is none.\<close>

fun py_index :: "pyval list \<Rightarrow> pyval \<Rightarrow> nat option" where
  "py_index [] v = None"
| "py_index (x # xs) v = (if py_eq x v then Some 0 else map_option Suc (py_index xs v))"

text \<open>\<open>s.startswith(p)\<close>.\<close>

definition startswith :: "string \<Rightarrow> string \<Rightarrow> bool" where
  "startswith s p = (take (length p) s = p)"

text \<open>\<open>str.lower()\<close> on ASCII names (class names are ASCII identifiers).\<close>

definition lower_char :: "char \<Rightarrow> char" where
  "lower_char c =
     (let n = (of_char c :: nat) in if 65 \<le> n \<and> n \<le> 90 then char_of (n + 32) else c)"

definition lower :: "string \<Rightarrow> string" where
  "lower s = map lower_char s"

section \<open>Dictionaries\<close>

text \<open>
  A dictionary keeps its keys in insertion order; storing under a key that is present
  replaces the value in place. \<open>data_values[fn_name]\<close> is keyed by arbitrary labels, so its
  keys are compared with \<open>py_eq\<close>.
\<close>

fun dict_set :: "'k \<Rightarrow> 'v \<Rightarrow> ('k \<times> 'v) list \<Rightarrow> ('k \<times> 'v) list" where
  "dict_set k v [] = [(k, v)]"
| "dict_set k v ((k', v') # d) = (if k' = k then (k', v) # d else (k', v') # dict_set k v d)"

text \<open>\<open>dict(zip(keys, values))\<close>.\<close>

definition dict_of_pairs :: "('k \<times> 'v) list \<Rightarrow> ('k \<times> 'v) list" where
  "dict_of_pairs kvs = foldl (\<lambda>d (k, v). dict_set k v d) [] kvs"

type_synonym tally = "(pyval \<times> nat) list"

fun tally_get :: "tally \<Rightarrow> pyval \<Rightarrow> nat option" where
  "tally_get [] v = None"
| "tally_get ((k, n) # t) v = (if py_eq k v then Some n else tally_get t v)"

fun tally_set :: "pyval \<Rightarrow> nat \<Rightarrow> tally \<Rightarrow> tally" where
  "tally_set v n [] = [(v, n)]"
| "tally_set v n ((k, m) # t) = (if py_eq k v then (k, n) # t else (k, m) # tally_set v n t)"

section \<open>Errors\<close>

text \<open>
  An exception is a value. The message of a \<open>ValueError\<close> is kept as its format template
  and the arguments given to \<open>format\<close>, so that what the message names can be stated.
\<close>

datatype fmt_arg = FStr string | FList "pyval list" | FVal pyval

datatype error =
    ValueError string "fmt_arg list"
  | KeyError fmt_arg
  | AttributeError string

section \<open>The review object\<close>

text \<open>
  A record is the list of its values in field order (\<open>list(record)\<close>); a combination pairs
  it with the subject visit it came from, or with \<open>None\<close>. A model instance is its
  attribute table. A test method either returns a label, or calls
  \<open>self.update_exceptions(fn_name, record, subject_visit)\<close> with its own name and its own
  arguments and then returns a label.
\<close>

type_synonym obj = "string \<rightharpoonup> pyval"

type_synonym 'c combination = "pyval list \<times> 'c option"

text \<open>A generator: the items it yields, then the error it raises, if any.\<close>

type_synonym 'c source = "'c combination list \<times> error option"

datatype verdict = Label pyval | Unhandled pyval

type_synonym 'c classifier = "pyval list \<Rightarrow> 'c option \<Rightarrow> verdict"

datatype 'c exc_entry = RecordOnly "pyval list" | WithVisit "pyval list" 'c

text \<open>
  A model class of the query layer: \<open>get_by_visit\<close> is
  \<open>model.objects.get(subject_visit=...)\<close>, with \<open>None\<close> for \<open>DoesNotExist\<close>, and \<open>blank\<close>
  is \<open>model()\<close>.
\<close>

record 'c model =
  object_name :: string
  get_by_visit :: "'c \<Rightarrow> obj option"
  blank :: obj

text \<open>
  What a subclass defines: \<open>fields\<close> (here \<open>record_fields\<close>; \<open>record_class._fields\<close> is
  the same list), \<open>models\<close>, the visits selected by
  \<open>visit_model.objects.filter(...).exclude(...)\<close> (the query layer's answer), the
  attributes named \<open>opts_...\<close>, the methods named \<open>fn_...\<close>, and \<open>dir(self)\<close>, which lists
  every attribute name once. The object itself (\<open>review\<close>) adds what \<open>__init__\<close> assigns.
\<close>

record 'c klass =
  record_fields :: "string list"
  class_models :: "'c model list"
  visit_query :: "'c list"
  attr_opts :: "string \<rightharpoonup> pyval list"
  attr_fns :: "string \<rightharpoonup> 'c classifier"
  dir_names :: "string list"

record 'c review = "'c klass" +
  data_values :: "string \<rightharpoonup> tally"
  data_exceptions :: "string \<rightharpoonup> 'c exc_entry list"
  raise_exceptions :: bool
  use_unique_combinations :: pyval
  combinations :: "'c source"
  models :: "(string \<times> 'c model) list"
  subject_visits :: "'c list"
  fn_names :: "string list"

definition method_prefix :: string where
  "method_prefix = ''fn_''"

definition options_prefix :: string where
  "options_prefix = ''opts_''"

section \<open>Combination sources\<close>

text \<open>
  \<open>itertools.product(*pools)\<close>, as the library documents it:
  \<^verbatim>\<open>
  result = [[]]
  for pool in pools:
      result = [x+[y] for x in result for y in pool]
  \<close>
\<close>

definition product_step :: "'a list list \<Rightarrow> 'a list \<Rightarrow> 'a list list" where
  "product_step result pool = concat (map (\<lambda>x. map (\<lambda>y. x @ [y]) pool) result)"

definition itertools_product :: "'a list list \<Rightarrow> 'a list list" where
  "itertools_product pools = foldl product_step [[]] pools"

text \<open>\<open>[getattr(self, self.options_prefix + attr) for attr in self.record_class._fields]\<close>:
  the first missing attribute raises.\<close>

fun collect_opts :: "'c review \<Rightarrow> string list \<Rightarrow> error + pyval list list" where
  "collect_opts s [] = Inr []"
| "collect_opts s (attr # rest) =
     (case attr_opts s (options_prefix @ attr) of
        None \<Rightarrow> Inl (AttributeError (options_prefix @ attr))
      | Some pool \<Rightarrow>
          (case collect_opts s rest of
             Inl e \<Rightarrow> Inl e
           | Inr pools \<Rightarrow> Inr (pool # pools)))"

definition generate_combinations :: "'c review \<Rightarrow> 'c source" where
  "generate_combinations s =
     (case collect_opts s (record_fields s) of
        Inl e \<Rightarrow> ([], Some e)
      | Inr opts \<Rightarrow> (map (\<lambda>values_list. (values_list, None)) (itertools_product opts), None))"

text \<open>\<open>objects\<close>: one instance per model of \<open>self.models\<close>, the stored one or a blank one.\<close>

definition instance_for :: "'c model \<Rightarrow> 'c \<Rightarrow> obj" where
  "instance_for m subject_visit =
     (case get_by_visit m subject_visit of Some ob \<Rightarrow> ob | None \<Rightarrow> blank m)"

definition objects :: "'c review \<Rightarrow> 'c \<Rightarrow> (string \<times> obj) list" where
  "objects s subject_visit =
     foldl (\<lambda>objs (model_name, m). dict_set model_name (instance_for m subject_visit) objs)
       [] (models s)"

text \<open>The loop of \<open>get_field_value\<close>: \<open>getattr\<close> on each instance in turn, an
  \<open>AttributeError\<close> passes to the next one, the first value found ends the loop.\<close>

fun probe :: "obj list \<Rightarrow> string \<Rightarrow> pyval" where
  "probe [] field_name = PyNone"
| "probe (inst # rest) field_name =
     (case inst field_name of Some v \<Rightarrow> v | None \<Rightarrow> probe rest field_name)"

definition get_field_value :: "'c review \<Rightarrow> string \<Rightarrow> 'c \<Rightarrow> pyval" where
  "get_field_value s field_name subject_visit =
     probe (map snd (objects s subject_visit)) field_name"

text \<open>The loop of \<open>values_list_from\<close>:
  \<open>values_list[values_list.index(field_name)] = self.get_field_value(field_name, subject_visit)\<close>.\<close>

fun fill_values :: "'c review \<Rightarrow> 'c \<Rightarrow> string list \<Rightarrow> pyval list \<Rightarrow> error + pyval list" where
  "fill_values s subject_visit [] values_list = Inr values_list"
| "fill_values s subject_visit (field_name # rest) values_list =
     (case py_index values_list (PyStr field_name) of
        None \<Rightarrow> Inl (ValueError ''{!r} is not in list'' [FVal (PyStr field_name)])
      | Some i \<Rightarrow>
          fill_values s subject_visit rest
            (values_list[i := get_field_value s field_name subject_visit]))"

definition values_list_from :: "'c review \<Rightarrow> 'c \<Rightarrow> error + pyval list" where
  "values_list_from s subject_visit =
     fill_values s subject_visit (record_fields s) (map PyStr (record_fields s))"

text \<open>The loop of \<open>lookup_combinations\<close>, with the local list \<open>found\<close>.\<close>

fun lookup_loop :: "'c review \<Rightarrow> pyval list list \<Rightarrow> 'c list \<Rightarrow> 'c source" where
  "lookup_loop s found [] = ([], None)"
| "lookup_loop s found (subject_visit # rest) =
     (case values_list_from s subject_visit of
        Inl e \<Rightarrow> ([], Some e)
      | Inr values_list \<Rightarrow>
          if \<not> py_in values_list found then
            (case lookup_loop s
                    (if truthy (use_unique_combinations s) then found @ [values_list] else found)
                    rest of
               (ys, e) \<Rightarrow> ((values_list, Some subject_visit) # ys, e))
          else lookup_loop s found rest)"

definition lookup_combinations :: "'c review \<Rightarrow> 'c source" where
  "lookup_combinations s = lookup_loop s [] (subject_visits s)"

section \<open>Tallies and the exception log\<close>

text \<open>
  A method that raises has still made the changes it made before raising, so every
  operation returns the error, if any, together with the object as it then is.
\<close>

definition increment_counter :: "pyval \<Rightarrow> string \<Rightarrow> 'c review \<Rightarrow> error option \<times> 'c review" where
  "increment_counter v fn_name s =
     (case data_values s fn_name of
        None \<Rightarrow> (Some (KeyError (FStr fn_name)), s)
      | Some t \<Rightarrow>
          (let t1 = (case tally_get t v of None \<Rightarrow> tally_set v 0 t | Some n \<Rightarrow> t) in
           case tally_get t1 v of
             None \<Rightarrow> (Some (KeyError (FVal v)), s\<lparr>data_values := (data_values s)(fn_name \<mapsto> t1)\<rparr>)
           | Some n \<Rightarrow>
               (None, s\<lparr>data_values := (data_values s)(fn_name \<mapsto> tally_set v (n + 1) t1)\<rparr>)))"

definition unhandled_template :: string where
  "unhandled_template = ''Unhandled record for '{}'. Got opts {}''"

definition update_exceptions ::
  "string \<Rightarrow> pyval list \<Rightarrow> 'c option \<Rightarrow> 'c review \<Rightarrow> error option \<times> 'c review" where
  "update_exceptions fn_name rec subject_visit s =
     (case data_exceptions s fn_name of
        None \<Rightarrow> (Some (KeyError (FStr fn_name)), s)
      | Some log \<Rightarrow>
          (let entry = (case subject_visit of
                          Some sv \<Rightarrow> WithVisit rec sv
                        | None \<Rightarrow> RecordOnly rec);
               s' = s\<lparr>data_exceptions := (data_exceptions s)(fn_name \<mapsto> log @ [entry])\<rparr>
           in if raise_exceptions s
              then (Some (ValueError unhandled_template [FStr fn_name, FList rec]), s')
              else (None, s')))"

section \<open>The runner\<close>

text \<open>\<open>value = getattr(self, fn_name)(record, subject_visit)\<close> and
  \<open>self.increment_counter(value, fn_name)\<close>.\<close>

definition call_fn :: "string \<Rightarrow> 'c combination \<Rightarrow> 'c review \<Rightarrow> error option \<times> 'c review" where
  "call_fn fn_name comb s =
     (case attr_fns s fn_name of
        None \<Rightarrow> (Some (AttributeError fn_name), s)
      | Some f \<Rightarrow>
          (case f (fst comb) (snd comb) of
             Label v \<Rightarrow> increment_counter v fn_name s
           | Unhandled v \<Rightarrow>
               (case update_exceptions fn_name (fst comb) (snd comb) s of
                  (Some e, s') \<Rightarrow> (Some e, s')
                | (None, s') \<Rightarrow> increment_counter v fn_name s')))"

fun run_fns :: "string list \<Rightarrow> 'c combination \<Rightarrow> 'c review \<Rightarrow> error option \<times> 'c review" where
  "run_fns [] comb s = (None, s)"
| "run_fns (fn_name # rest) comb s =
     (case call_fn fn_name comb s of
        (Some e, s') \<Rightarrow> (Some e, s')
      | (None, s') \<Rightarrow> run_fns rest comb s')"

fun run_combinations :: "'c combination list \<Rightarrow> 'c review \<Rightarrow> error option \<times> 'c review" where
  "run_combinations [] s = (None, s)"
| "run_combinations (comb # rest) s =
     (case run_fns (fn_names s) comb s of
        (Some e, s') \<Rightarrow> (Some e, s')
      | (None, s') \<Rightarrow> run_combinations rest s')"

fun reset_tables :: "string list \<Rightarrow> 'c review \<Rightarrow> 'c review" where
  "reset_tables [] s = s"
| "reset_tables (fn_name # rest) s =
     reset_tables rest
       (s\<lparr>data_values := (data_values s)(fn_name \<mapsto> []),
          data_exceptions := (data_exceptions s)(fn_name \<mapsto> [])\<rparr>)"

text \<open>
  \<open>run_all\<close> reads \<open>self.combinations\<close> once, front to back; when the source is a
  generator that raises, the run ends with that error after the items yielded before it.
\<close>

definition run_all :: "'c review \<Rightarrow> error option \<times> 'c review" where
  "run_all s =
     (case run_combinations (fst (combinations s)) (reset_tables (fn_names s) s) of
        (Some e, s') \<Rightarrow> (Some e, s')
      | (None, s') \<Rightarrow> (snd (combinations s), s'))"

section \<open>The constructor\<close>

record 'c init_args =
  arg_combinations :: "'c combination list option"
  arg_lookup_combinations :: pyval
  arg_raise_exceptions :: pyval
  arg_run_all :: pyval
  arg_use_unique_combinations :: pyval
  arg_fn_name :: "string option"

text \<open>
  \<open>__init__\<close>, in two parts: the assignments up to \<open>self.fn_names\<close> (\<open>new_review\<close>), and
  \<open>init\<close>, which adds what can raise. \<open>namedtuple\<close> refuses a repeated field name (its
  other checks on names are not modelled: field names are taken to be identifiers). The
  generators stored in \<open>self.combinations\<close> run only when \<open>run_all\<close> iterates them, when
  \<open>self.models\<close> and \<open>self.subject_visits\<close> are set, so they are computed from the object
  with these set. A constructor that raises gives no object.
\<close>

definition select_fn_names :: "'c klass \<Rightarrow> 'c init_args \<Rightarrow> string list" where
  "select_fn_names k a =
     (case arg_fn_name a of
        Some fn_name \<Rightarrow>
          if fn_name \<noteq> [] then [fn_name]
          else filter (\<lambda>fn. startswith fn method_prefix) (dir_names k)
      | None \<Rightarrow> filter (\<lambda>fn. startswith fn method_prefix) (dir_names k))"

definition select_combinations :: "'c init_args \<Rightarrow> 'c review \<Rightarrow> 'c source" where
  "select_combinations a s =
     (case arg_combinations a of
        Some cs \<Rightarrow>
          if cs \<noteq> [] then (cs, None)
          else if truthy (arg_lookup_combinations a) then lookup_combinations s
          else generate_combinations s
      | None \<Rightarrow>
          if truthy (arg_lookup_combinations a) then lookup_combinations s
          else generate_combinations s)"

definition new_review :: "'c klass \<Rightarrow> 'c init_args \<Rightarrow> 'c review" where
  "new_review k a =
     (let s = \<lparr>record_fields = record_fields k,
                class_models = class_models k,
                visit_query = visit_query k,
                attr_opts = attr_opts k,
                attr_fns = attr_fns k,
                dir_names = dir_names k,
                data_values = Map.empty,
                data_exceptions = Map.empty,
                raise_exceptions = (if arg_raise_exceptions a = PyBool True then True else False),
                use_unique_combinations = arg_use_unique_combinations a,
                combinations = ([], None),
                models = dict_of_pairs
                  (zip (map (\<lambda>m. lower (object_name m)) (class_models k)) (class_models k)),
                subject_visits = visit_query k,
                fn_names = select_fn_names k a\<rparr>
      in s\<lparr>combinations := select_combinations a s\<rparr>)"

definition init :: "'c klass \<Rightarrow> 'c init_args \<Rightarrow> error + 'c review" where
  "init k a =
     (if \<not> distinct (record_fields k)
      then Inl (ValueError ''Encountered duplicate field name: {!r}'' [])
      else if truthy (arg_run_all a)
      then (case run_all (new_review k a) of (Some e, s') \<Rightarrow> Inl e | (None, s') \<Rightarrow> Inr s')
      else Inr (new_review k a))"

section \<open>Descriptions used in the statements\<close>

text \<open>
  The cartesian product as the specification words it: nested iteration over the option
  lists, the first field's options in the outermost loop, so that the last field varies
  fastest. This definition follows the specification, not the code; \<open>itertools_product\<close>
  above is the code's.
\<close>

fun nested_product :: "'a list list \<Rightarrow> 'a list list" where
  "nested_product [] = [[]]"
| "nested_product (pool # pools) =
     concat (map (\<lambda>x. map (\<lambda>r. x # r) (nested_product pools)) pool)"

text \<open>
  The visits that de-duplication retains: each visit whose values list is not \<open>==\<close> to one
  already seen (used to describe \<open>lookup_combinations\<close>; the code's loop is \<open>lookup_loop\<close>).
\<close>

fun first_seen :: "('c \<Rightarrow> pyval list) \<Rightarrow> pyval list list \<Rightarrow> 'c list \<Rightarrow> 'c list" where
  "first_seen vals found [] = []"
| "first_seen vals found (sv # rest) =
     (if py_in (vals sv) found then first_seen vals found rest
      else sv # first_seen vals (found @ [vals sv]) rest)"

text \<open>The net effect of \<open>increment_counter\<close> on one tally.\<close>

definition bump :: "pyval \<Rightarrow> tally \<Rightarrow> tally" where
  "bump v t = (case tally_get t v of None \<Rightarrow> tally_set v 1 (tally_set v 0 t)
                 | Some n \<Rightarrow> tally_set v (n + 1) t)"

text \<open>The attributes that a run does not assign: all but \<open>data_values\<close> and
  \<open>data_exceptions\<close>.\<close>

definition same_setup :: "'c review \<Rightarrow> 'c review \<Rightarrow> bool" where
  "same_setup s s' =
     (record_fields s' = record_fields s \<and> class_models s' = class_models s \<and>
      visit_query s' = visit_query s \<and> attr_opts s' = attr_opts s \<and>
      attr_fns s' = attr_fns s \<and> dir_names s' = dir_names s \<and>
      raise_exceptions s' = raise_exceptions s \<and>
      use_unique_combinations s' = use_unique_combinations s \<and>
      combinations s' = combinations s \<and> models s' = models s \<and>
      subject_visits s' = subject_visits s \<and> fn_names s' = fn_names s)"

section \<open>Example objects\<close>

text \<open>A review object with nothing in it, with visits numbered by naturals.\<close>

definition bare_review :: "nat review" where
  "bare_review =
     \<lparr>record_fields = [], class_models = [], visit_query = [], attr_opts = Map.empty,
      attr_fns = Map.empty, dir_names = [], data_values = Map.empty,
      data_exceptions = Map.empty, raise_exceptions = False,
      use_unique_combinations = PyNone, combinations = ([], None), models = [],
      subject_visits = [], fn_names = []\<rparr>"

text \<open>Fields \<open>a\<close> and \<open>b\<close> with \<open>opts_a = [0, 1]\<close> and \<open>opts_b = [0, 1]\<close>.\<close>

definition two_by_two :: "nat review" where
  "two_by_two =
     bare_review\<lparr>record_fields := [''a'', ''b''],
       attr_opts := [''opts_a'' \<mapsto> [PyInt 0, PyInt 1], ''opts_b'' \<mapsto> [PyInt 0, PyInt 1]]\<rparr>"

text \<open>One field \<open>a\<close> with \<open>opts_a = [0, 0]\<close>.\<close>

definition repeated_option :: "nat review" where
  "repeated_option =
     bare_review\<lparr>record_fields := [''a''], attr_opts := [''opts_a'' \<mapsto> [PyInt 0, PyInt 0]]\<rparr>"

text \<open>
  Two models and four visits. \<open>CrfOne\<close> has the attribute \<open>a\<close> only, \<open>CrfTwo\<close> has
  \<open>a\<close> and \<open>b\<close>; visit 13 has no \<open>CrfOne\<close> row; visits 11 and 12 give \<open>==\<close> values;
  at visit 14 the value of \<open>a\<close> is the string \<open>b\<close>, the name of the other field.
\<close>

definition crf_one :: "nat model" where
  "crf_one =
     \<lparr>object_name = ''CrfOne'',
      get_by_visit = (\<lambda>sv.
        if sv = 11 then Some [''a'' \<mapsto> PyInt 1]
        else if sv = 12 then Some [''a'' \<mapsto> PyBool True]
        else if sv = 14 then Some [''a'' \<mapsto> PyStr ''b'']
        else None),
      blank = [''a'' \<mapsto> PyNone]\<rparr>"

definition crf_two :: "nat model" where
  "crf_two =
     \<lparr>object_name = ''CrfTwo'',
      get_by_visit = (\<lambda>sv.
        if sv = 11 \<or> sv = 12 then Some [''a'' \<mapsto> PyInt 9, ''b'' \<mapsto> PyInt 2]
        else if sv = 13 then Some [''a'' \<mapsto> PyInt 9, ''b'' \<mapsto> PyInt 3]
        else if sv = 14 then Some [''a'' \<mapsto> PyInt 9, ''b'' \<mapsto> PyStr ''x'']
        else None),
      blank = [''a'' \<mapsto> PyNone, ''b'' \<mapsto> PyNone]\<rparr>"

definition clinic :: "nat review" where
  "clinic =
     bare_review\<lparr>record_fields := [''a'', ''b''],
       class_models := [crf_one, crf_two],
       visit_query := [11, 12, 13],
       models := [(''crfone'', crf_one), (''crftwo'', crf_two)],
       subject_visits := [11, 12, 13]\<rparr>"

definition clinic_unique :: "nat review" where
  "clinic_unique = clinic\<lparr>use_unique_combinations := PyBool True\<rparr>"

text \<open>
  Two test methods over one field: \<open>fn_is_zero\<close> labels every record, \<open>fn_sign\<close> reports
  every record but \<open>(0,)\<close> as unhandled and falls through (returns \<open>None\<close>).
\<close>

definition fn_is_zero :: "nat classifier" where
  "fn_is_zero r c = Label (PyBool (r = [PyInt 0]))"

definition fn_sign :: "nat classifier" where
  "fn_sign r c = (if r = [PyInt 0] then Label (PyStr ''zero'') else Unhandled PyNone)"

definition tally_demo :: "nat review" where
  "tally_demo =
     bare_review\<lparr>record_fields := [''a''],
       attr_fns := [''fn_is_zero'' \<mapsto> fn_is_zero, ''fn_sign'' \<mapsto> fn_sign],
       dir_names := [''fn_is_zero'', ''fn_sign''],
       combinations := ([([PyInt 0], None), ([PyInt 1], None), ([PyInt 1], Some 11)], None),
       fn_names := [''fn_is_zero'', ''fn_sign'']\<rparr>"

text \<open>The same with \<open>raise_exceptions\<close> set.\<close>

definition strict_demo :: "nat review" where
  "strict_demo = tally_demo\<lparr>raise_exceptions := True\<rparr>"

text \<open>Objects whose tables hold an empty tally and an empty log for \<open>fn_sign\<close>, with
  \<open>raise_exceptions\<close> set and unset.\<close>

definition armed :: "nat review" where
  "armed =
     bare_review\<lparr>data_values := [''fn_sign'' \<mapsto> []], data_exceptions := [''fn_sign'' \<mapsto> []],
       raise_exceptions := True\<rparr>"

definition logging :: "nat review" where
  "logging =
     bare_review\<lparr>data_values := [''fn_sign'' \<mapsto> []], data_exceptions := [''fn_sign'' \<mapsto> []]\<rparr>"

text \<open>A subclass with one field and the two test methods, constructed with
  \<open>raise_exceptions=1\<close> and \<open>run_all=True\<close>.\<close>

definition demo_klass :: "nat klass" where
  "demo_klass =
     \<lparr>record_fields = [''a''], class_models = [], visit_query = [],
      attr_opts = [''opts_a'' \<mapsto> [PyInt 0, PyInt 1]],
      attr_fns = [''fn_is_zero'' \<mapsto> fn_is_zero, ''fn_sign'' \<mapsto> fn_sign],
      dir_names = [''fn_is_zero'', ''fn_sign'', ''run_all'']\<rparr>"

definition demo_args :: "nat init_args" where
  "demo_args =
     \<lparr>arg_combinations = None, arg_lookup_combinations = PyNone,
      arg_raise_exceptions = PyInt 1, arg_run_all = PyBool True,
      arg_use_unique_combinations = PyNone, arg_fn_name = None\<rparr>"

section \<open>The synthetic source\<close>

lemma nested_product_lists: "nested_product pools = product_lists pools"
  by (induction pools) simp_all

lemma append_fun_Nil: "(@) [] = (\<lambda>r. r)"
  by (rule ext) simp

lemma append_fun_snoc: "(@) (a @ [x]) = (\<lambda>r. a @ x # r)"
  by (rule ext) simp

lemma product_step_Nil: "product_step [] pool = []"
  by (simp add: product_step_def)

lemma product_step_Cons:
  "product_step (a # acc) pool = map (\<lambda>y. a @ [y]) pool @ product_step acc pool"
  by (simp add: product_step_def)

text \<open>The loop of \<open>itertools.product\<close> extends every partial result by every way of
  choosing from the pools that remain.\<close>

lemma foldl_product_step:
  "foldl product_step acc pools =
     concat (map (\<lambda>a. map (\<lambda>r. a @ r) (nested_product pools)) acc)"
proof (induction pools arbitrary: acc)
  case Nil
  show ?case by (induction acc) simp_all
next
  case (Cons p ps)
  have "concat (map (\<lambda>a. map (\<lambda>r. a @ r) (nested_product ps)) (product_step acc p)) =
        concat (map (\<lambda>a. map (\<lambda>r. a @ r) (nested_product (p # ps))) acc)"
  proof (induction acc)
    case Nil
    show ?case by (simp add: product_step_Nil)
  next
    case (Cons a acc)
    have "concat (map (\<lambda>a'. map (\<lambda>r. a' @ r) (nested_product ps)) (map (\<lambda>y. a @ [y]) p)) =
          map (\<lambda>r. a @ r) (nested_product (p # ps))"
      by (simp add: map_concat comp_def append_fun_snoc)
    with Cons show ?case by (simp add: product_step_Cons)
  qed
  with Cons.IH show ?case by simp
qed

lemma itertools_product_nested: "itertools_product pools = nested_product pools"
  by (simp add: itertools_product_def foldl_product_step append_fun_Nil)

lemma set_nested_product:
  "set (nested_product pools) = {vs. list_all2 (\<lambda>v pool. v \<in> set pool) vs pools}"
  by (simp add: nested_product_lists product_lists_set)

lemma length_nested_product:
  "length (nested_product pools) = prod_list (map length pools)"
  by (induction pools) (simp_all add: length_concat comp_def sum_list_triv)

lemma distinct_cons_product:
  "distinct p \<Longrightarrow> distinct R \<Longrightarrow>
   distinct (concat (map (\<lambda>x. map (\<lambda>r. x # r) R) p))"
  by (induction p) (auto simp: distinct_map inj_on_def)

lemma distinct_nested_product:
  "(\<forall>pool \<in> set pools. distinct pool) \<Longrightarrow> distinct (nested_product pools)"
  by (induction pools) (simp_all add: distinct_cons_product)

lemma collect_opts_all:
  "(\<forall>f \<in> set fs. attr_opts s (options_prefix @ f) = Some (opts f)) \<Longrightarrow>
   collect_opts s fs = Inr (map opts fs)"
  by (induction fs) simp_all

lemma generate_combinations_nested:
  assumes "\<forall>f \<in> set (record_fields s). attr_opts s (options_prefix @ f) = Some (opts f)"
  shows "generate_combinations s =
           (map (\<lambda>vs. (vs, None)) (nested_product (map opts (record_fields s))), None)"
  using collect_opts_all [OF assms]
  by (simp add: generate_combinations_def itertools_product_nested)

text \<open>
  C1 (amended). When every field of the record has its option list, the synthetic source
  raises nothing and yields the cartesian product of the option lists in nested iteration
  order (the last field varies fastest), every item paired with \<open>None\<close>: the records
  yielded are exactly the lists that take, at each field, one of that field's options,
  and there are as many items as the product of the lengths of the option lists. When no
  option list repeats a value, no record is yielded twice.
\<close>

theorem generate_combinations_product:
  assumes "\<forall>f \<in> set (record_fields s). attr_opts s (options_prefix @ f) = Some (opts f)"
  shows "generate_combinations s =
           (map (\<lambda>vs. (vs, None)) (nested_product (map opts (record_fields s))), None)
       \<and> set (map fst (fst (generate_combinations s))) =
           {vs. list_all2 (\<lambda>v f. v \<in> set (opts f)) vs (record_fields s)}
       \<and> length (fst (generate_combinations s)) =
           prod_list (map (\<lambda>f. length (opts f)) (record_fields s))
       \<and> ((\<forall>f \<in> set (record_fields s). distinct (opts f)) \<longrightarrow>
            distinct (map fst (fst (generate_combinations s))))"
proof -
  let ?pools = "map opts (record_fields s)"
  have g: "generate_combinations s = (map (\<lambda>vs. (vs, None)) (nested_product ?pools), None)"
    by (rule generate_combinations_nested [OF assms])
  have m: "map fst (fst (generate_combinations s)) = nested_product ?pools"
    by (simp add: g comp_def)
  have a: "set (map fst (fst (generate_combinations s))) =
             {vs. list_all2 (\<lambda>v f. v \<in> set (opts f)) vs (record_fields s)}"
    unfolding m by (simp add: set_nested_product list_all2_map2)
  have b: "length (fst (generate_combinations s)) =
             prod_list (map (\<lambda>f. length (opts f)) (record_fields s))"
    by (simp add: g length_nested_product comp_def)
  have c: "(\<forall>f \<in> set (record_fields s). distinct (opts f)) \<longrightarrow>
             distinct (map fst (fst (generate_combinations s)))"
    unfolding m by (simp add: distinct_nested_product)
  from g a b c show ?thesis by blast
qed

text \<open>The specification's example: \<open>(0,0), (0,1), (1,0), (1,1)\<close>, in that order.\<close>

theorem generate_combinations_product_witness:
  "generate_combinations two_by_two =
     ([([PyInt 0, PyInt 0], None), ([PyInt 0, PyInt 1], None),
       ([PyInt 1, PyInt 0], None), ([PyInt 1, PyInt 1], None)], None)"
  using generate_combinations_product [of two_by_two "\<lambda>f. [PyInt 0, PyInt 1]"]
  by (simp add: two_by_two_def bare_review_def options_prefix_def)

text \<open>
  C1 as stated fails where an option list repeats a value: with \<open>opts_a = [0, 0]\<close> the
  record \<open>(0,)\<close> is yielded twice.
\<close>

theorem generate_combinations_repeats:
  "generate_combinations repeated_option = ([([PyInt 0], None), ([PyInt 0], None)], None)
   \<and> \<not> distinct (map fst (fst (generate_combinations repeated_option)))"
  by (simp add: generate_combinations_def repeated_option_def bare_review_def
      options_prefix_def itertools_product_def product_step_def)

section \<open>Reading field values\<close>

lemma py_eq_refl: "py_eq a a" by (simp add: py_eq_def)
lemma py_eq_sym: "py_eq a b = py_eq b a" by (auto simp: py_eq_def)
lemma py_eq_PyStr: "py_eq (PyStr f) (PyStr g) = (f = g)" by (simp add: py_eq_def)
lemma py_list_eq_keys: "py_list_eq xs ys = (map py_key xs = map py_key ys)"
  unfolding py_list_eq_def
  by (induction xs arbitrary: ys) (auto simp: py_eq_def list_all2_Cons1)

lemma py_in_keys: "py_in x found = (map py_key x \<in> set (map (map py_key) found))"
  by (induction found) (auto simp: py_in_def py_list_eq_keys)

text \<open>Storing under new keys appends, so \<open>objects\<close> lists one instance per model, in
  the order of \<open>self.models\<close>.\<close>

lemma dict_set_fresh: "k \<notin> fst ` set d \<Longrightarrow> dict_set k v d = d @ [(k, v)]"
  by (induction d) auto

lemma foldl_dict_set_distinct:
  "distinct (map fst ms) \<Longrightarrow> fst ` set ms \<inter> fst ` set acc = {} \<Longrightarrow>
   foldl (\<lambda>objs (n, m). dict_set n (g m) objs) acc ms = acc @ map (\<lambda>(n, m). (n, g m)) ms"
proof (induction ms arbitrary: acc)
  case Nil
  show ?case by simp
next
  case (Cons a ms)
  obtain n m where a: "a = (n, m)" by (cases a)
  from Cons.prems a have fresh: "n \<notin> fst ` set acc" by auto
  from Cons.prems a have d: "distinct (map fst ms)" and n: "n \<notin> fst ` set ms" by auto
  from Cons.prems a n have disj: "fst ` set ms \<inter> fst ` set (acc @ [(n, g m)]) = {}"
    by auto
  show ?case
    using Cons.IH [OF d disj] by (simp add: a dict_set_fresh [OF fresh])
qed

lemma objects_distinct:
  "distinct (map fst (models s)) \<Longrightarrow>
   objects s sv = map (\<lambda>(n, m). (n, instance_for m sv)) (models s)"
  unfolding objects_def
  using foldl_dict_set_distinct [of "models s" "[]" "\<lambda>m. instance_for m sv"] by simp

lemma probe_find:
  "probe insts f =
     (case find (\<lambda>inst. f \<in> dom inst) insts of None \<Rightarrow> PyNone | Some inst \<Rightarrow> the (inst f))"
  by (induction insts) (auto split: option.splits)

text \<open>
  C9. \<open>get_field_value\<close> returns the attribute's value on the first instance, in the order
  of \<open>self.models\<close>, that has the attribute (an instance without it is passed over), and
  \<open>None\<close> when no instance has it; it raises nothing. The instance of a model is the row
  stored for the visit, or a blank instance when there is none. (\<open>self.models\<close> is a
  dictionary, so its keys are distinct.)
\<close>

theorem get_field_value_first:
  assumes "distinct (map fst (models s))"
  shows "get_field_value s field_name sv =
           (case find (\<lambda>inst. field_name \<in> dom inst)
                   (map (\<lambda>(n, m). instance_for m sv) (models s)) of
              None \<Rightarrow> PyNone
            | Some inst \<Rightarrow> the (inst field_name))"
proof -
  have "map snd (objects s sv) = map (\<lambda>(n, m). instance_for m sv) (models s)"
    by (simp add: objects_distinct [OF assms] comp_def case_prod_unfold)
  then show ?thesis by (simp add: get_field_value_def probe_find)
qed


lemma clinic_models: "distinct (map fst (models clinic))"
  by (simp add: clinic_def bare_review_def)

theorem get_field_value_first_witness:
  "get_field_value clinic ''b'' 11 = PyInt 2
   \<and> get_field_value clinic ''a'' 11 = PyInt 1
   \<and> get_field_value clinic ''a'' 13 = PyNone
   \<and> get_field_value clinic ''c'' 11 = PyNone"
  using get_field_value_first [OF clinic_models, of "''b''" 11]
    get_field_value_first [OF clinic_models, of "''a''" 11]
    get_field_value_first [OF clinic_models, of "''a''" 13]
    get_field_value_first [OF clinic_models, of "''c''" 11]
  by (simp add: clinic_def bare_review_def crf_one_def crf_two_def instance_for_def)

section \<open>The values list of a visit\<close>

lemma py_index_Some: "py_index vl a = Some i \<Longrightarrow> i < length vl \<and> py_eq (vl ! i) a"
proof (induction vl arbitrary: i)
  case Nil
  then show ?case by simp
next
  case (Cons x vl)
  then show ?case by (cases "py_eq x a") (auto split: if_splits)
qed

lemma py_index_None: "(py_index vl a = None) = (\<forall>x \<in> set vl. \<not> py_eq x a)"
  by (induction vl) auto

lemma py_index_update_other:
  assumes i: "py_index vl a = Some i" and b: "py_index vl b \<noteq> None" and ab: "\<not> py_eq a b"
  shows "py_index (vl[i := v]) b \<noteq> None"
proof -
  from b obtain x where x: "x \<in> set vl" "py_eq x b" by (auto simp: py_index_None)
  then obtain p where p: "p < length vl" "vl ! p = x" by (auto simp: in_set_conv_nth)
  from py_index_Some [OF i] have ia: "py_eq (vl ! i) a" by simp
  have "p \<noteq> i"
  proof
    assume "p = i"
    with ia x p ab show False by (simp add: py_eq_def)
  qed
  with p have "(vl[i := v]) ! p = x" "p < length (vl[i := v])" by simp_all
  then have "x \<in> set (vl[i := v])" by (metis nth_mem)
  with x show ?thesis by (auto simp: py_index_None)
qed

lemma fill_values_total:
  "distinct fs \<Longrightarrow> (\<forall>f \<in> set fs. py_index vl (PyStr f) \<noteq> None) \<Longrightarrow>
   \<exists>r. fill_values s sv fs vl = Inr r \<and> length r = length vl"
proof (induction fs arbitrary: vl)
  case Nil
  show ?case by simp
next
  case (Cons f fs)
  from Cons.prems obtain i where i: "py_index vl (PyStr f) = Some i" by auto
  let ?vl = "vl[i := get_field_value s f sv]"
  have "\<forall>g \<in> set fs. py_index ?vl (PyStr g) \<noteq> None"
  proof
    fix g assume g: "g \<in> set fs"
    with Cons.prems have "g \<noteq> f" "py_index vl (PyStr g) \<noteq> None" by auto
    then show "py_index ?vl (PyStr g) \<noteq> None"
      using py_index_update_other [OF i] by (simp add: py_eq_PyStr)
  qed
  moreover from Cons.prems have "distinct fs" by simp
  ultimately obtain r where "fill_values s sv fs ?vl = Inr r" "length r = length ?vl"
    using Cons.IH by blast
  with i show ?case by simp
qed

lemma values_list_from_total:
  assumes "distinct (record_fields s)"
  shows "\<exists>r. values_list_from s sv = Inr r \<and> length r = length (record_fields s)"
proof -
  have "\<forall>f \<in> set (record_fields s). py_index (map PyStr (record_fields s)) (PyStr f) \<noteq> None"
    by (auto simp: py_index_None py_eq_PyStr)
  from fill_values_total [OF assms this, of s sv] show ?thesis
    by (simp add: values_list_from_def)
qed


lemmas clinic_defs = clinic_def bare_review_def crf_one_def crf_two_def values_list_from_def
  get_field_value_def objects_def instance_for_def py_eq_def

lemma clinic_11: "values_list_from clinic 11 = Inr [PyInt 1, PyInt 2]"
  by (simp add: clinic_defs)
lemma clinic_12: "values_list_from clinic 12 = Inr [PyBool True, PyInt 2]"
  by (simp add: clinic_defs)
lemma clinic_13: "values_list_from clinic 13 = Inr [PyNone, PyInt 3]"
  by (simp add: clinic_defs)
lemma py_index_append:
  "(\<forall>x \<in> set filled. \<not> py_eq x a) \<Longrightarrow> py_eq y a \<Longrightarrow>
   py_index (filled @ y # rest) a = Some (length filled)"
  by (induction filled) simp_all

lemma fill_values_in_order:
  "distinct fs \<Longrightarrow>
   (\<forall>x \<in> set filled. \<forall>f \<in> set fs. \<not> py_eq x (PyStr f)) \<Longrightarrow>
   (\<forall>pre f post. fs = pre @ f # post \<longrightarrow>
      (\<forall>g \<in> set post. \<not> py_eq (get_field_value s f sv) (PyStr g))) \<Longrightarrow>
   fill_values s sv fs (filled @ map PyStr fs) =
     Inr (filled @ map (\<lambda>f. get_field_value s f sv) fs)"
proof (induction fs arbitrary: filled)
  case Nil
  show ?case by simp
next
  case (Cons f fs)
  let ?v = "get_field_value s f sv"
  from Cons.prems(2) have "\<forall>x \<in> set filled. \<not> py_eq x (PyStr f)" by simp
  then have i: "py_index (filled @ PyStr f # map PyStr fs) (PyStr f) = Some (length filled)"
    by (rule py_index_append) (rule py_eq_refl)
  have u: "(filled @ PyStr f # map PyStr fs)[length filled := ?v] = (filled @ [?v]) @ map PyStr fs"
    by simp
  from Cons.prems(3) have "\<forall>g \<in> set fs. \<not> py_eq ?v (PyStr g)" by fastforce
  with Cons.prems(2) have a: "\<forall>x \<in> set (filled @ [?v]). \<forall>g \<in> set fs. \<not> py_eq x (PyStr g)"
    by simp
  have b: "\<forall>pre g post. fs = pre @ g # post \<longrightarrow>
      (\<forall>h \<in> set post. \<not> py_eq (get_field_value s g sv) (PyStr h))"
  proof (intro allI impI)
    fix pre g post assume "fs = pre @ g # post"
    then have "f # fs = (f # pre) @ g # post" by simp
    with Cons.prems(3) show "\<forall>h \<in> set post. \<not> py_eq (get_field_value s g sv) (PyStr h)"
      by blast
  qed
  from Cons.prems(1) have d: "distinct fs" by simp
  from Cons.IH [OF d a b] i u show ?case by simp
qed

text \<open>
  Where the code does place the values in field order: when no value looked up for a field
  is \<open>==\<close> to the name of a later field.
\<close>

lemma values_list_from_in_order:
  assumes "distinct (record_fields s)"
    and "\<forall>pre f post. record_fields s = pre @ f # post \<longrightarrow>
           (\<forall>g \<in> set post. \<not> py_eq (get_field_value s f sv) (PyStr g))"
  shows "values_list_from s sv = Inr (map (\<lambda>f. get_field_value s f sv) (record_fields s))"
  using fill_values_in_order [OF assms(1) _ assms(2), of "[]"]
  by (simp add: values_list_from_def)

text \<open>
  C6, at an input where the code does not do what its docstring says. At visit 14 the
  lookups give \<open>a = 'b'\<close> and \<open>b = 'x'\<close>. After the first assignment the list is
  \<open>['b', 'b']\<close>, so \<open>values_list.index('b')\<close> is 0 and the value of \<open>b\<close> overwrites the
  value of \<open>a\<close>: the result is \<open>['x', 'b']\<close>, where the values in field order are
  \<open>['b', 'x']\<close>.
\<close>

theorem values_list_from_misplaced:
  "values_list_from clinic 14 = Inr [PyStr ''x'', PyStr ''b'']
   \<and> map (\<lambda>f. get_field_value clinic f 14) (record_fields clinic) = [PyStr ''b'', PyStr ''x'']"
  by (simp add: clinic_defs)

section \<open>The source derived from data\<close>

lemma lookup_loop_all:
  assumes v: "\<forall>sv. values_list_from s sv = Inr (vals sv)"
    and f: "\<not> truthy (use_unique_combinations s)"
  shows "lookup_loop s [] svs = (map (\<lambda>sv. (vals sv, Some sv)) svs, None)"
  by (induction svs) (simp_all add: v f py_in_def)

text \<open>
  C8. With \<open>use_unique_combinations\<close> unset (falsy), \<open>lookup_combinations\<close> raises nothing
  and yields, for every subject visit in iteration order, the record built from that
  visit's values list paired with the visit; visits with equal values are all yielded.
  (\<open>namedtuple\<close> makes the field names distinct.)
\<close>

theorem lookup_combinations_all:
  assumes "distinct (record_fields s)" and "\<not> truthy (use_unique_combinations s)"
  shows "\<exists>vals. (\<forall>sv. values_list_from s sv = Inr (vals sv)) \<and>
           lookup_combinations s = (map (\<lambda>sv. (vals sv, Some sv)) (subject_visits s), None)"
proof -
  from values_list_from_total [OF assms(1)]
  have "\<forall>sv. \<exists>r. values_list_from s sv = Inr r" by blast
  then obtain vals where v: "\<forall>sv. values_list_from s sv = Inr (vals sv)" by metis
  from lookup_loop_all [OF v assms(2)] v show ?thesis
    unfolding lookup_combinations_def by blast
qed

theorem lookup_combinations_all_witness:
  "lookup_combinations clinic =
     ([([PyInt 1, PyInt 2], Some 11), ([PyBool True, PyInt 2], Some 12),
       ([PyNone, PyInt 3], Some 13)], None)"
proof -
  have d: "distinct (record_fields clinic)" by (simp add: clinic_def bare_review_def)
  have t: "\<not> truthy (use_unique_combinations clinic)" by (simp add: clinic_def bare_review_def)
  from lookup_combinations_all [OF d t] obtain vals where
    v: "\<forall>sv. values_list_from clinic sv = Inr (vals sv)" and
    l: "lookup_combinations clinic = (map (\<lambda>sv. (vals sv, Some sv)) (subject_visits clinic), None)"
    by blast
  from v clinic_11 clinic_12 clinic_13
  have "vals 11 = [PyInt 1, PyInt 2]" "vals 12 = [PyBool True, PyInt 2]" "vals 13 = [PyNone, PyInt 3]"
    by simp_all
  with l show ?thesis by (simp add: clinic_def bare_review_def)
qed

lemma lookup_loop_first_seen:
  assumes v: "\<forall>sv. values_list_from s sv = Inr (vals sv)"
    and t: "truthy (use_unique_combinations s)"
  shows "lookup_loop s found svs =
           (map (\<lambda>sv. (vals sv, Some sv)) (first_seen vals found svs), None)"
  by (induction svs arbitrary: found) (simp_all add: v t)

lemma first_seen_first:
  "k \<in> set (first_seen vals found svs) \<Longrightarrow>
   \<not> py_in (vals k) found \<and>
   (\<exists>pre post. svs = pre @ k # post \<and> (\<forall>sv' \<in> set pre. \<not> py_list_eq (vals sv') (vals k)))"
proof (induction svs arbitrary: found)
  case Nil
  then show ?case by simp
next
  case (Cons sv rest)
  show ?case
  proof (cases "py_in (vals sv) found")
    case True
    with Cons.prems have "k \<in> set (first_seen vals found rest)" by simp
    from Cons.IH [OF this] obtain pre post where
      n: "\<not> py_in (vals k) found" and r: "rest = pre @ k # post"
      and p: "\<forall>sv' \<in> set pre. \<not> py_list_eq (vals sv') (vals k)" by blast
    from True n have "\<not> py_list_eq (vals sv) (vals k)"
      by (auto simp: py_in_keys py_list_eq_keys)
    with p have "\<forall>sv' \<in> set (sv # pre). \<not> py_list_eq (vals sv') (vals k)" by simp
    moreover from r have "sv # rest = (sv # pre) @ k # post" by simp
    ultimately show ?thesis using n by blast
  next
    case False
    with Cons.prems consider "k = sv" | "k \<in> set (first_seen vals (found @ [vals sv]) rest)"
      by auto
    then show ?thesis
    proof cases
      case 1
      have "sv # rest = [] @ sv # rest" by simp
      with 1 False show ?thesis by (metis empty_iff list.set(1))
    next
      case 2
      from Cons.IH [OF 2] obtain pre post where
        n: "\<not> py_in (vals k) (found @ [vals sv])" and r: "rest = pre @ k # post"
        and p: "\<forall>sv' \<in> set pre. \<not> py_list_eq (vals sv') (vals k)" by blast
      from n have n1: "\<not> py_in (vals k) found" and n2: "\<not> py_list_eq (vals sv) (vals k)"
        by (auto simp: py_in_keys py_list_eq_keys)
      from p n2 have "\<forall>sv' \<in> set (sv # pre). \<not> py_list_eq (vals sv') (vals k)" by simp
      moreover from r have "sv # rest = (sv # pre) @ k # post" by simp
      ultimately show ?thesis using n1 by blast
    qed
  qed
qed

lemma first_seen_distinct:
  "distinct (map (\<lambda>sv. map py_key (vals sv)) (first_seen vals found svs))"
proof (induction svs arbitrary: found)
  case Nil
  show ?case by simp
next
  case (Cons sv rest)
  have "map py_key (vals sv) \<notin> (\<lambda>k. map py_key (vals k)) ` set (first_seen vals (found @ [vals sv]) rest)"
  proof
    assume "map py_key (vals sv) \<in> (\<lambda>k. map py_key (vals k)) ` set (first_seen vals (found @ [vals sv]) rest)"
    then obtain k where k: "k \<in> set (first_seen vals (found @ [vals sv]) rest)"
      and e: "map py_key (vals sv) = map py_key (vals k)" by auto
    from first_seen_first [OF k] have "\<not> py_in (vals k) (found @ [vals sv])" by simp
    with e show False by (simp add: py_in_keys)
  qed
  with Cons.IH show ?case by simp
qed

lemma first_seen_covers:
  "sv \<in> set svs \<Longrightarrow>
   py_in (vals sv) found \<or> (\<exists>k \<in> set (first_seen vals found svs). py_list_eq (vals k) (vals sv))"
proof (induction svs arbitrary: found)
  case Nil
  then show ?case by simp
next
  case (Cons x rest)
  show ?case
  proof (cases "sv = x")
    case True
    then show ?thesis by (auto simp: py_list_eq_keys)
  next
    case False
    with Cons.prems have m: "sv \<in> set rest" by simp
    show ?thesis
    proof (cases "py_in (vals x) found")
      case True
      with Cons.IH [OF m, of found] show ?thesis by simp
    next
      case False
      from Cons.IH [OF m, of "found @ [vals x]"]
      have "py_in (vals sv) (found @ [vals x]) \<or>
            (\<exists>k \<in> set (first_seen vals (found @ [vals x]) rest). py_list_eq (vals k) (vals sv))" .
      then show ?thesis using False
        by (auto simp: py_in_keys py_list_eq_keys)
    qed
  qed
qed

text \<open>
  C4. With \<open>use_unique_combinations\<close> set (truthy), \<open>lookup_combinations\<close> raises nothing
  and no two of the items it yields have \<open>==\<close> values lists (so no two have the same one);
  the values list of every subject visit is \<open>==\<close> to that of one yielded item; and every
  yielded item pairs the values list of a visit with that visit, the first one in iteration
  order whose values list is \<open>==\<close> to it. (\<open>namedtuple\<close> makes the field names distinct.)
\<close>

theorem lookup_combinations_unique:
  assumes "distinct (record_fields s)" and "truthy (use_unique_combinations s)"
  shows "\<exists>vals out.
           (\<forall>sv. values_list_from s sv = Inr (vals sv))
         \<and> lookup_combinations s = (out, None)
         \<and> (\<forall>i j. i < j \<and> j < length out \<longrightarrow> \<not> py_list_eq (fst (out ! i)) (fst (out ! j)))
         \<and> distinct (map fst out)
         \<and> (\<forall>sv \<in> set (subject_visits s). \<exists>item \<in> set out. py_list_eq (fst item) (vals sv))
         \<and> (\<forall>item \<in> set out. \<exists>pre sv post.
               subject_visits s = pre @ sv # post \<and> item = (vals sv, Some sv) \<and>
               (\<forall>sv' \<in> set pre. \<not> py_list_eq (vals sv') (vals sv)))"
proof -
  from values_list_from_total [OF assms(1)]
  have "\<forall>sv. \<exists>r. values_list_from s sv = Inr r" by blast
  then obtain vals where v: "\<forall>sv. values_list_from s sv = Inr (vals sv)" by metis
  let ?ks = "first_seen vals [] (subject_visits s)"
  let ?out = "map (\<lambda>sv. (vals sv, Some sv)) ?ks"
  have l: "lookup_combinations s = (?out, None)"
    unfolding lookup_combinations_def by (rule lookup_loop_first_seen [OF v assms(2)])
  have dk: "distinct (map (\<lambda>sv. map py_key (vals sv)) ?ks)" by (rule first_seen_distinct)
  have a: "\<forall>i j. i < j \<and> j < length ?out \<longrightarrow> \<not> py_list_eq (fst (?out ! i)) (fst (?out ! j))"
  proof (intro allI impI)
    fix i j assume ij: "i < j \<and> j < length ?out"
    then have "i < length ?ks" "j < length ?ks" "i \<noteq> j" by simp_all
    with dk have "map py_key (vals (?ks ! i)) \<noteq> map py_key (vals (?ks ! j))"
      by (simp add: distinct_conv_nth)
    with ij show "\<not> py_list_eq (fst (?out ! i)) (fst (?out ! j))"
      by (simp add: py_list_eq_keys)
  qed
  have "distinct (map (\<lambda>x. map py_key x) (map fst ?out))"
    using dk by (simp add: comp_def)
  then have d: "distinct (map fst ?out)" unfolding distinct_map by blast
  have b: "\<forall>sv \<in> set (subject_visits s). \<exists>item \<in> set ?out. py_list_eq (fst item) (vals sv)"
  proof
    fix sv assume "sv \<in> set (subject_visits s)"
    from first_seen_covers [OF this, of vals "[]"]
    obtain k where "k \<in> set ?ks" "py_list_eq (vals k) (vals sv)" by (auto simp: py_in_def)
    then show "\<exists>item \<in> set ?out. py_list_eq (fst item) (vals sv)" by auto
  qed
  have c: "\<forall>item \<in> set ?out. \<exists>pre sv post.
             subject_visits s = pre @ sv # post \<and> item = (vals sv, Some sv) \<and>
             (\<forall>sv' \<in> set pre. \<not> py_list_eq (vals sv') (vals sv))"
  proof
    fix item assume "item \<in> set ?out"
    then obtain k where k: "k \<in> set ?ks" and i: "item = (vals k, Some k)" by auto
    from first_seen_first [OF k] i
    show "\<exists>pre sv post.
            subject_visits s = pre @ sv # post \<and> item = (vals sv, Some sv) \<and>
            (\<forall>sv' \<in> set pre. \<not> py_list_eq (vals sv') (vals sv))" by blast
  qed
  from v l a d b c show ?thesis by blast
qed

lemma clinic_unique_values:
  "values_list_from clinic_unique 11 = Inr [PyInt 1, PyInt 2]"
  "values_list_from clinic_unique 12 = Inr [PyBool True, PyInt 2]"
  "values_list_from clinic_unique 13 = Inr [PyNone, PyInt 3]"
  by (simp_all add: clinic_unique_def clinic_defs)

text \<open>Visits 11 and 12 have \<open>==\<close> values lists (\<open>1 == True\<close>): visit 11 is yielded, visit 12 is
  not.\<close>

theorem lookup_combinations_unique_witness:
  "lookup_combinations clinic_unique =
     ([([PyInt 1, PyInt 2], Some 11), ([PyNone, PyInt 3], Some 13)], None)
   \<and> distinct (map fst (fst (lookup_combinations clinic_unique)))"
proof -
  have d: "distinct (record_fields clinic_unique)"
    by (simp add: clinic_unique_def clinic_def bare_review_def)
  have t: "truthy (use_unique_combinations clinic_unique)"
    by (simp add: clinic_unique_def)
  have sv: "subject_visits clinic_unique = [11, 12, 13]"
    by (simp add: clinic_unique_def clinic_def bare_review_def)
  have e: "lookup_combinations clinic_unique =
             ([([PyInt 1, PyInt 2], Some 11), ([PyNone, PyInt 3], Some 13)], None)"
    by (simp add: lookup_combinations_def sv clinic_unique_values t py_in_def py_list_eq_def
        py_eq_def)
  from lookup_combinations_unique [OF d t] obtain out where
    "lookup_combinations clinic_unique = (out, None)" and "distinct (map fst out)"
    by blast
  then have "distinct (map fst (fst (lookup_combinations clinic_unique)))" by simp
  with e show ?thesis by blast
qed

section \<open>Tallies\<close>

lemma tally_get_set_same: "tally_get (tally_set v n t) v = Some n"
  by (induction t) (auto simp: py_eq_def)

lemma tally_get_set:
  "tally_get (tally_set v n t) w = (if py_eq v w then Some n else tally_get t w)"
  by (induction t) (auto simp: py_eq_def)

lemma tally_set_sum_new:
  "tally_get t v = None \<Longrightarrow> sum_list (map snd (tally_set v n t)) = sum_list (map snd t) + n"
  by (induction t) (auto split: if_splits)

lemma tally_set_sum_old:
  "tally_get t v = Some m \<Longrightarrow>
   sum_list (map snd (tally_set v n t)) + m = sum_list (map snd t) + n"
  by (induction t) (auto split: if_splits)

lemma increment_counter_Some:
  "data_values s fn_name = Some t \<Longrightarrow>
   increment_counter v fn_name s =
     (None, s\<lparr>data_values := (data_values s)(fn_name \<mapsto> bump v t)\<rparr>)"
  by (simp add: increment_counter_def bump_def tally_get_set_same split: option.splits)

lemma increment_counter_None:
  "data_values s fn_name = None \<Longrightarrow>
   increment_counter v fn_name s = (Some (KeyError (FStr fn_name)), s)"
  by (simp add: increment_counter_def)

lemma bump_sum: "sum_list (map snd (bump v t)) = sum_list (map snd t) + 1"
proof (cases "tally_get t v")
  case None
  then have "sum_list (map snd (tally_set v 0 t)) = sum_list (map snd t)"
    by (simp add: tally_set_sum_new)
  moreover have "tally_get (tally_set v 0 t) v = Some 0" by (rule tally_get_set_same)
  ultimately show ?thesis
    using tally_set_sum_old [of "tally_set v 0 t" v 0 1] None by (simp add: bump_def)
next
  case (Some m)
  then show ?thesis using tally_set_sum_old [OF Some, of "m + 1"] by (simp add: bump_def)
qed

lemma bump_get:
  "tally_get (bump v t) w =
     (if py_eq v w then Some (case tally_get t w of None \<Rightarrow> 1 | Some n \<Rightarrow> n + 1)
      else tally_get t w)"
proof -
  have same: "py_eq v w \<Longrightarrow> tally_get t w = tally_get t v"
    by (induction t) (auto simp: py_eq_def)
  show ?thesis
    by (cases "tally_get t v") (auto simp: bump_def tally_get_set same)
qed


lemma update_exceptions_Some:
  "data_exceptions s fn_name = Some log \<Longrightarrow>
   update_exceptions fn_name r c s =
     (if raise_exceptions s
      then Some (ValueError unhandled_template [FStr fn_name, FList r]) else None,
      s\<lparr>data_exceptions := (data_exceptions s)(fn_name \<mapsto>
           log @ [case c of Some sv \<Rightarrow> WithVisit r sv | None \<Rightarrow> RecordOnly r])\<rparr>)"
  by (simp add: update_exceptions_def)

lemma update_exceptions_None:
  "data_exceptions s fn_name = None \<Longrightarrow>
   update_exceptions fn_name r c s = (Some (KeyError (FStr fn_name)), s)"
  by (simp add: update_exceptions_def)

lemma same_setup_refl: "same_setup s s"
  by (simp add: same_setup_def)

lemma same_setup_trans: "same_setup s s' \<Longrightarrow> same_setup s' s'' \<Longrightarrow> same_setup s s''"
  by (simp add: same_setup_def)

lemma same_setup_fields:
  assumes "same_setup s s'"
  shows "fn_names s' = fn_names s" "attr_fns s' = attr_fns s"
    "raise_exceptions s' = raise_exceptions s" "combinations s' = combinations s"
    "models s' = models s"
  using assms by (simp_all add: same_setup_def)

lemma same_setup_upd:
  "same_setup s (s\<lparr>data_values := dv\<rparr>)" "same_setup s (s\<lparr>data_exceptions := de\<rparr>)"
  "same_setup s (s\<lparr>data_values := dv, data_exceptions := de\<rparr>)"
  by (simp_all add: same_setup_def)

lemma increment_counter_setup: "same_setup s (snd (increment_counter v f s))"
  by (cases "data_values s f")
     (simp_all add: increment_counter_None increment_counter_Some same_setup_refl same_setup_upd)

lemma update_exceptions_setup: "same_setup s (snd (update_exceptions f r c s))"
  by (cases "data_exceptions s f")
     (simp_all add: update_exceptions_None update_exceptions_Some same_setup_refl same_setup_upd)

lemma update_exceptions_values: "data_values (snd (update_exceptions f r c s)) = data_values s"
  by (cases "data_exceptions s f")
     (simp_all add: update_exceptions_None update_exceptions_Some)

lemma call_fn_setup: "same_setup s (snd (call_fn f comb s))"
proof (cases "attr_fns s f")
  case None
  then show ?thesis by (simp add: call_fn_def same_setup_refl)
next
  case (Some g)
  show ?thesis
  proof (cases "g (fst comb) (snd comb)")
    case (Label v)
    with Some show ?thesis by (simp add: call_fn_def increment_counter_setup)
  next
    case (Unhandled v)
    obtain e s1 where u: "update_exceptions f (fst comb) (snd comb) s = (e, s1)"
      by (cases "update_exceptions f (fst comb) (snd comb) s")
    then have s1: "same_setup s s1" using update_exceptions_setup [of s f "fst comb" "snd comb"] by simp
    show ?thesis
    proof (cases e)
      case None
      with Some Unhandled u have "call_fn f comb s = increment_counter v f s1"
        by (simp add: call_fn_def)
      with s1 show ?thesis using increment_counter_setup [of s1 v f]
        by (auto intro: same_setup_trans)
    next
      case (Some err)
      with \<open>attr_fns s f = Some g\<close> Unhandled u have "call_fn f comb s = (Some err, s1)"
        by (simp add: call_fn_def)
      with s1 show ?thesis by simp
    qed
  qed
qed

lemma call_fn_tally:
  assumes "call_fn f comb s = (None, s')"
  shows "\<exists>t. data_values s f = Some t \<and> data_values s' = (data_values s)(f \<mapsto> bump (case the (attr_fns s f) (fst comb) (snd comb) of Label v \<Rightarrow> v | Unhandled v \<Rightarrow> v) t)"
proof (cases "attr_fns s f")
  case None
  with assms show ?thesis by (simp add: call_fn_def)
next
  case (Some g)
  show ?thesis
  proof (cases "g (fst comb) (snd comb)")
    case (Label v)
    with Some assms have i: "increment_counter v f s = (None, s')" by (simp add: call_fn_def)
    then obtain t where t: "data_values s f = Some t"
      by (cases "data_values s f") (simp_all add: increment_counter_None)
    with i Some Label show ?thesis by (auto simp: increment_counter_Some)
  next
    case (Unhandled v)
    obtain e s1 where u: "update_exceptions f (fst comb) (snd comb) s = (e, s1)"
      by (cases "update_exceptions f (fst comb) (snd comb) s")
    with Some Unhandled assms have e: "e = None" and i: "increment_counter v f s1 = (None, s')"
      by (auto simp: call_fn_def split: option.splits)
    from u have dv: "data_values s1 = data_values s"
      using update_exceptions_values [of f "fst comb" "snd comb" s] by simp
    from i obtain t where t: "data_values s1 f = Some t"
      by (cases "data_values s1 f") (simp_all add: increment_counter_None)
    with i dv Some Unhandled show ?thesis by (auto simp: increment_counter_Some)
  qed
qed

lemma call_fn_sum:
  assumes "call_fn f comb s = (None, s')"
  shows "\<exists>t t'. data_values s f = Some t \<and> data_values s' f = Some t' \<and>
           sum_list (map snd t') = sum_list (map snd t) + 1"
    and "g \<noteq> f \<Longrightarrow> data_values s' g = data_values s g"
  using call_fn_tally [OF assms] by (auto simp: bump_sum)

lemma run_fns_setup: "same_setup s (snd (run_fns fs comb s))"
proof (induction fs arbitrary: s)
  case Nil
  show ?case by (simp add: same_setup_refl)
next
  case (Cons f fs)
  obtain e s1 where c: "call_fn f comb s = (e, s1)" by (cases "call_fn f comb s")
  then have s1: "same_setup s s1" using call_fn_setup [of s f comb] by simp
  show ?case
  proof (cases e)
    case None
    with c have "run_fns (f # fs) comb s = run_fns fs comb s1" by simp
    with s1 Cons.IH [of s1] show ?thesis by (auto intro: same_setup_trans)
  next
    case (Some err)
    with c s1 show ?thesis by simp
  qed
qed

lemma run_fns_sum:
  "distinct fs \<Longrightarrow> run_fns fs comb s = (None, s') \<Longrightarrow>
   (\<forall>f \<in> set fs. \<exists>t t'. data_values s f = Some t \<and> data_values s' f = Some t' \<and>
       sum_list (map snd t') = sum_list (map snd t) + 1) \<and>
   (\<forall>g. g \<notin> set fs \<longrightarrow> data_values s' g = data_values s g)"
proof (induction fs arbitrary: s)
  case Nil
  then show ?case by simp
next
  case (Cons f fs)
  obtain e s1 where c: "call_fn f comb s = (e, s1)" by (cases "call_fn f comb s")
  with Cons.prems have e: "e = None" and r: "run_fns fs comb s1 = (None, s')"
    by (auto split: option.splits)
  from Cons.prems have d: "distinct fs" and nf: "f \<notin> set fs" by simp_all
  note ih = Cons.IH [OF d r]
  from c e have c': "call_fn f comb s = (None, s1)" by simp
  from call_fn_sum(1) [OF c'] obtain t t1 where
    t: "data_values s f = Some t" "data_values s1 f = Some t1"
       "sum_list (map snd t1) = sum_list (map snd t) + 1" by blast
  have other: "\<And>g. g \<noteq> f \<Longrightarrow> data_values s1 g = data_values s g"
    by (rule call_fn_sum(2) [OF c'])
  from ih nf have "data_values s' f = data_values s1 f" by blast
  with t have head: "\<exists>t t'. data_values s f = Some t \<and> data_values s' f = Some t' \<and>
       sum_list (map snd t') = sum_list (map snd t) + 1" by simp
  have tail: "\<forall>g \<in> set fs. \<exists>t t'. data_values s g = Some t \<and> data_values s' g = Some t' \<and>
       sum_list (map snd t') = sum_list (map snd t) + 1"
  proof
    fix g assume g: "g \<in> set fs"
    with nf have "g \<noteq> f" by auto
    with other have eq: "data_values s1 g = data_values s g" by simp
    from ih g obtain t1 t' where "data_values s1 g = Some t1" "data_values s' g = Some t'"
      "sum_list (map snd t') = sum_list (map snd t1) + 1" by blast
    with eq have "data_values s g = Some t1 \<and> data_values s' g = Some t' \<and>
       sum_list (map snd t') = sum_list (map snd t1) + 1" by simp
    then show "\<exists>t t'. data_values s g = Some t \<and> data_values s' g = Some t' \<and>
       sum_list (map snd t') = sum_list (map snd t) + 1" by blast
  qed
  have rest: "\<forall>g. g \<notin> set (f # fs) \<longrightarrow> data_values s' g = data_values s g"
    using ih other by auto
  from head tail rest show ?case by simp
qed

lemma run_combinations_setup: "same_setup s (snd (run_combinations cs s))"
proof (induction cs arbitrary: s)
  case Nil
  show ?case by (simp add: same_setup_refl)
next
  case (Cons c cs)
  obtain e s1 where r: "run_fns (fn_names s) c s = (e, s1)"
    by (cases "run_fns (fn_names s) c s")
  then have s1: "same_setup s s1" using run_fns_setup [of s "fn_names s" c] by simp
  show ?case
  proof (cases e)
    case None
    with r have "run_combinations (c # cs) s = run_combinations cs s1" by simp
    with s1 Cons.IH [of s1] show ?thesis by (auto intro: same_setup_trans)
  next
    case (Some err)
    with r s1 show ?thesis by simp
  qed
qed

lemma run_combinations_sum:
  "distinct (fn_names s) \<Longrightarrow> run_combinations cs s = (None, s') \<Longrightarrow>
   f \<in> set (fn_names s) \<Longrightarrow> data_values s f = Some t \<Longrightarrow>
   \<exists>t'. data_values s' f = Some t' \<and> sum_list (map snd t') = sum_list (map snd t) + length cs"
proof (induction cs arbitrary: s t)
  case Nil
  then show ?case by simp
next
  case (Cons c cs)
  obtain e s1 where r: "run_fns (fn_names s) c s = (e, s1)"
    by (cases "run_fns (fn_names s) c s")
  with Cons.prems have e: "e = None" and rc: "run_combinations cs s1 = (None, s')"
    by (auto split: option.splits)
  from r have "same_setup s s1" using run_fns_setup [of s "fn_names s" c] by simp
  then have fn: "fn_names s1 = fn_names s" by (rule same_setup_fields)
  from run_fns_sum [OF Cons.prems(1)] r e Cons.prems(3,4)
  obtain t1 where t1: "data_values s1 f = Some t1"
    "sum_list (map snd t1) = sum_list (map snd t) + 1" by fastforce
  from Cons.IH [of s1 t1] fn Cons.prems(1,3) rc t1(1)
  obtain t' where "data_values s' f = Some t'"
    "sum_list (map snd t') = sum_list (map snd t1) + length cs" by auto
  with t1 show ?case by simp
qed

lemma reset_tables_setup: "same_setup s (reset_tables fs s)"
proof (induction fs arbitrary: s)
  case Nil
  show ?case by (simp add: same_setup_refl)
next
  case (Cons f fs)
  have "same_setup s (s\<lparr>data_values := (data_values s)(f \<mapsto> []),
          data_exceptions := (data_exceptions s)(f \<mapsto> [])\<rparr>)"
    by (rule same_setup_upd)
  with Cons.IH show ?case by (auto intro: same_setup_trans)
qed

lemma reset_tables_other:
  "f \<notin> set fs \<Longrightarrow>
   data_values (reset_tables fs s) f = data_values s f \<and>
   data_exceptions (reset_tables fs s) f = data_exceptions s f"
  by (induction fs arbitrary: s) auto

lemma reset_tables_empty:
  "f \<in> set fs \<Longrightarrow>
   data_values (reset_tables fs s) f = Some [] \<and> data_exceptions (reset_tables fs s) f = Some []"
proof (induction fs arbitrary: s)
  case Nil
  then show ?case by simp
next
  case (Cons g fs)
  show ?case
  proof (cases "f \<in> set fs")
    case True
    with Cons.IH show ?thesis by simp
  next
    case False
    with Cons.prems have "f = g" by simp
    with False show ?thesis by (simp add: reset_tables_other)
  qed
qed


lemma run_all_setup: "same_setup s (snd (run_all s))"
proof -
  let ?s0 = "reset_tables (fn_names s) s"
  have a: "same_setup s ?s0" by (rule reset_tables_setup)
  have b: "same_setup ?s0 (snd (run_combinations (fst (combinations s)) ?s0))"
    by (rule run_combinations_setup)
  have "snd (run_all s) = snd (run_combinations (fst (combinations s)) ?s0)"
    by (simp add: run_all_def split: prod.splits option.splits)
  with a b show ?thesis by (auto intro: same_setup_trans)
qed

text \<open>
  C2. When the names in \<open>fn_names\<close> are distinct (\<open>dir\<close> lists a name once) and \<open>run_all\<close>
  returns without raising, then for every test method the counts recorded for it add up to
  the number of combinations; and a call of \<open>increment_counter\<close> for a method that has a
  tally raises nothing, adds one to the count of the label (a label not yet counted starts
  at 0), leaves every other count as it was, and so adds one to the sum.
\<close>

theorem run_all_tally_sum:
  assumes "distinct (fn_names s)" and "run_all s = (None, s')" and "fn_name \<in> set (fn_names s)"
  shows "(\<exists>t. data_values s' fn_name = Some t \<and>
              sum_list (map snd t) = length (fst (combinations s)))
       \<and> (\<forall>v f st t. data_values st f = Some t \<longrightarrow>
            (\<exists>t'. increment_counter v f (st :: 'c review) =
                     (None, st\<lparr>data_values := (data_values st)(f \<mapsto> t')\<rparr>)
                 \<and> sum_list (map snd t') = sum_list (map snd t) + 1
                 \<and> (\<forall>w. tally_get t' w =
                       (if py_eq v w
                        then Some (case tally_get t w of None \<Rightarrow> 1 | Some n \<Rightarrow> n + 1)
                        else tally_get t w))))"
proof -
  let ?s0 = "reset_tables (fn_names s) s"
  from assms(2) have r: "run_combinations (fst (combinations s)) ?s0 = (None, s')"
    by (auto simp: run_all_def split: prod.splits option.splits)
  have "same_setup s ?s0" by (rule reset_tables_setup)
  then have fn: "fn_names ?s0 = fn_names s" by (rule same_setup_fields)
  from reset_tables_empty [OF assms(3), of s] have e: "data_values ?s0 fn_name = Some []" by blast
  from run_combinations_sum [OF _ r _ e] fn assms(1,3)
  have first: "\<exists>t. data_values s' fn_name = Some t \<and>
                 sum_list (map snd t) = length (fst (combinations s))" by simp
  have second: "\<forall>v f st t. data_values st f = Some t \<longrightarrow>
            (\<exists>t'. increment_counter v f (st :: 'c review) =
                     (None, st\<lparr>data_values := (data_values st)(f \<mapsto> t')\<rparr>)
                 \<and> sum_list (map snd t') = sum_list (map snd t) + 1
                 \<and> (\<forall>w. tally_get t' w =
                       (if py_eq v w
                        then Some (case tally_get t w of None \<Rightarrow> 1 | Some n \<Rightarrow> n + 1)
                        else tally_get t w)))"
  proof (intro allI impI)
    fix v f and st :: "'c review" and t
    assume t: "data_values st f = Some t"
    have "increment_counter v f st = (None, st\<lparr>data_values := (data_values st)(f \<mapsto> bump v t)\<rparr>)"
      by (rule increment_counter_Some [OF t])
    moreover have "sum_list (map snd (bump v t)) = sum_list (map snd t) + 1" by (rule bump_sum)
    moreover have "\<forall>w. tally_get (bump v t) w =
                       (if py_eq v w
                        then Some (case tally_get t w of None \<Rightarrow> 1 | Some n \<Rightarrow> n + 1)
                        else tally_get t w)" by (simp add: bump_get)
    ultimately show "\<exists>t'. increment_counter v f st =
                     (None, st\<lparr>data_values := (data_values st)(f \<mapsto> t')\<rparr>)
                 \<and> sum_list (map snd t') = sum_list (map snd t) + 1
                 \<and> (\<forall>w. tally_get t' w =
                       (if py_eq v w
                        then Some (case tally_get t w of None \<Rightarrow> 1 | Some n \<Rightarrow> n + 1)
                        else tally_get t w))" by blast
  qed
  from first second show ?thesis by blast
qed

lemmas run_defs = run_all_def call_fn_def increment_counter_def update_exceptions_def
  py_eq_def fn_is_zero_def fn_sign_def bare_review_def

lemma tally_demo_run:
  "fst (run_all tally_demo) = None"
  "data_values (snd (run_all tally_demo)) ''fn_sign'' = Some [(PyStr ''zero'', 1), (PyNone, 2)]"
  "data_values (snd (run_all tally_demo)) ''fn_is_zero'' = Some [(PyBool True, 1), (PyBool False, 2)]"
  "data_exceptions (snd (run_all tally_demo)) ''fn_sign'' =
     Some [RecordOnly [PyInt 1], WithVisit [PyInt 1] 11]"
  by (simp_all add: tally_demo_def run_defs)


theorem run_all_tally_sum_witness:
  "run_all tally_demo = (None, snd (run_all tally_demo))
   \<and> data_values (snd (run_all tally_demo)) ''fn_sign'' = Some [(PyStr ''zero'', 1), (PyNone, 2)]
   \<and> sum_list (map snd [(PyStr ''zero'', 1 :: nat), (PyNone, 2)]) =
       length (fst (combinations tally_demo))"
proof -
  have d: "distinct (fn_names tally_demo)" by (simp add: tally_demo_def bare_review_def)
  have m: "''fn_sign'' \<in> set (fn_names tally_demo)" by (simp add: tally_demo_def bare_review_def)
  have r: "run_all tally_demo = (None, snd (run_all tally_demo))"
    using tally_demo_run(1) by (simp add: prod_eq_iff)
  from run_all_tally_sum [OF d r m] obtain t where
    "data_values (snd (run_all tally_demo)) ''fn_sign'' = Some t"
    "sum_list (map snd t) = length (fst (combinations tally_demo))" by blast
  with tally_demo_run(2) r show ?thesis by simp
qed

section \<open>Aborting a run\<close>

lemma run_fns_append:
  "run_fns (xs @ ys) comb s =
     (case run_fns xs comb s of (Some e, s') \<Rightarrow> (Some e, s') | (None, s') \<Rightarrow> run_fns ys comb s')"
  by (induction xs arbitrary: s) (auto split: prod.splits option.splits)

lemma call_fn_label:
  assumes "attr_fns s f = Some g" and "g (fst comb) (snd comb) = Label v"
    and "data_values s f = Some t"
  shows "call_fn f comb s = (None, s\<lparr>data_values := (data_values s)(f \<mapsto> bump v t)\<rparr>)"
  using assms by (simp add: call_fn_def increment_counter_Some)

lemma run_fns_labels:
  "(\<forall>fn \<in> set fs. \<exists>g v. attr_fns s fn = Some g \<and> g (fst comb) (snd comb) = Label v) \<Longrightarrow>
   set fs \<subseteq> dom (data_values s) \<Longrightarrow>
   \<exists>s'. run_fns fs comb s = (None, s') \<and> data_exceptions s' = data_exceptions s \<and>
        dom (data_values s') = dom (data_values s)"
proof (induction fs arbitrary: s)
  case Nil
  show ?case by simp
next
  case (Cons f fs)
  from Cons.prems obtain g v t where
    g: "attr_fns s f = Some g" "g (fst comb) (snd comb) = Label v" and t: "data_values s f = Some t"
    by auto
  let ?s1 = "s\<lparr>data_values := (data_values s)(f \<mapsto> bump v t)\<rparr>"
  have c: "call_fn f comb s = (None, ?s1)" by (rule call_fn_label [OF g t])
  from t have dm: "dom (data_values ?s1) = dom (data_values s)" by auto
  from Cons.prems have "\<forall>fn \<in> set fs. \<exists>g v. attr_fns ?s1 fn = Some g \<and> g (fst comb) (snd comb) = Label v"
    by simp
  moreover from Cons.prems dm have "set fs \<subseteq> dom (data_values ?s1)" by auto
  ultimately obtain s' where "run_fns fs comb ?s1 = (None, s')"
    "data_exceptions s' = data_exceptions ?s1" "dom (data_values s') = dom (data_values ?s1)"
    using Cons.IH [of ?s1] by blast
  with c dm show ?case by simp
qed

lemma run_combinations_append:
  "run_combinations (xs @ ys) s =
     (case run_combinations xs s of
        (Some e, s') \<Rightarrow> (Some e, s')
      | (None, s') \<Rightarrow> run_combinations ys s')"
  by (induction xs arbitrary: s) (auto split: prod.splits option.splits)

lemma run_combinations_labels:
  "(\<forall>comb \<in> set cs. \<forall>fn \<in> set (fn_names s).
      \<exists>g v. attr_fns s fn = Some g \<and> g (fst comb) (snd comb) = Label v) \<Longrightarrow>
   set (fn_names s) \<subseteq> dom (data_values s) \<Longrightarrow>
   \<exists>s'. run_combinations cs s = (None, s') \<and> data_exceptions s' = data_exceptions s \<and>
        dom (data_values s') = dom (data_values s)"
proof (induction cs arbitrary: s)
  case Nil
  show ?case by simp
next
  case (Cons c cs)
  from Cons.prems have "\<forall>fn \<in> set (fn_names s).
      \<exists>g v. attr_fns s fn = Some g \<and> g (fst c) (snd c) = Label v" by simp
  from run_fns_labels [OF this Cons.prems(2)] obtain s1 where
    r: "run_fns (fn_names s) c s = (None, s1)" and de: "data_exceptions s1 = data_exceptions s"
    and dm: "dom (data_values s1) = dom (data_values s)" by blast
  from r have "same_setup s s1" using run_fns_setup [of s "fn_names s" c] by simp
  then have fn: "fn_names s1 = fn_names s" and af: "attr_fns s1 = attr_fns s"
    by (rule same_setup_fields)+
  from Cons.prems fn af have "\<forall>comb \<in> set cs. \<forall>fn \<in> set (fn_names s1).
      \<exists>g v. attr_fns s1 fn = Some g \<and> g (fst comb) (snd comb) = Label v" by simp
  moreover from Cons.prems(2) fn dm have "set (fn_names s1) \<subseteq> dom (data_values s1)" by simp
  ultimately obtain s' where "run_combinations cs s1 = (None, s')"
    "data_exceptions s' = data_exceptions s1" "dom (data_values s') = dom (data_values s1)"
    using Cons.IH [of s1] by blast
  with r de dm show ?case by simp
qed

text \<open>
  C3. Let \<open>raise_exceptions\<close> be set and the names in \<open>fn_names\<close> be distinct. Let \<open>(r, c)\<close>
  be the first combination at which a test method reports the record as unhandled, and
  \<open>f\<close> the first method, in the order of \<open>fn_names\<close>, that does so there (every method
  called before exists and returns a label). Then \<open>run_all\<close> raises the \<open>ValueError\<close> whose
  message is the text \<open>Unhandled record for '{}'. Got opts {}\<close> formatted with the name
  \<open>f\<close> in the first place and the list of the values of \<open>r\<close> in the second, and nothing
  after that call is processed: the counts of every method add up to the number of
  combinations before \<open>(r, c)\<close>, plus one for the methods called on \<open>(r, c)\<close> before \<open>f\<close>,
  whatever combinations follow; the exception log of \<open>f\<close> holds the one entry for
  \<open>(r, c)\<close>.
\<close>

theorem run_all_aborts_at_first_unhandled:
  assumes raise: "raise_exceptions s"
    and dist: "distinct (fn_names s)"
    and combs: "fst (combinations s) = pre @ (r, c) # post"
    and before: "\<forall>comb \<in> set pre. \<forall>fn \<in> set (fn_names s).
                   \<exists>g v. attr_fns s fn = Some g \<and> g (fst comb) (snd comb) = Label v"
    and names: "fn_names s = fpre @ f # fpost"
    and fbefore: "\<forall>fn \<in> set fpre. \<exists>g v. attr_fns s fn = Some g \<and> g r c = Label v"
    and unh: "attr_fns s f = Some g" "g r c = Unhandled v"
  shows "\<exists>s'. run_all s =
              (Some (ValueError ''Unhandled record for '{}'. Got opts {}'' [FStr f, FList r]), s')
       \<and> (\<forall>fn \<in> set (fn_names s). \<exists>t. data_values s' fn = Some t \<and>
             sum_list (map snd t) = length pre + (if fn \<in> set fpre then 1 else 0))
       \<and> data_exceptions s' f =
             Some [case c of Some sv \<Rightarrow> WithVisit r sv | None \<Rightarrow> RecordOnly r]"
proof -
  let ?s0 = "reset_tables (fn_names s) s"
  let ?err = "ValueError unhandled_template [FStr f, FList r]"
  let ?entry = "case c of Some sv \<Rightarrow> WithVisit r sv | None \<Rightarrow> RecordOnly r"
  have set0: "same_setup s ?s0" by (rule reset_tables_setup)
  have fn0: "fn_names ?s0 = fn_names s" and af0: "attr_fns ?s0 = attr_fns s"
    using set0 by (rule same_setup_fields)+
  have empty0: "\<forall>fn \<in> set (fn_names s). data_values ?s0 fn = Some [] \<and> data_exceptions ?s0 fn = Some []"
    using reset_tables_empty [of _ "fn_names s" s] by blast
  then have dom0: "set (fn_names ?s0) \<subseteq> dom (data_values ?s0)" using fn0 by auto
  \<comment> \<open>the combinations before the unhandled one\<close>
  from before fn0 af0 have "\<forall>comb \<in> set pre. \<forall>fn \<in> set (fn_names ?s0).
      \<exists>g v. attr_fns ?s0 fn = Some g \<and> g (fst comb) (snd comb) = Label v" by simp
  from run_combinations_labels [OF this dom0] obtain s1 where
    r1: "run_combinations pre ?s0 = (None, s1)" and de1: "data_exceptions s1 = data_exceptions ?s0"
    and dm1: "dom (data_values s1) = dom (data_values ?s0)" by blast
  from r1 have set1: "same_setup ?s0 s1" using run_combinations_setup [of ?s0 pre] by simp
  have fn1: "fn_names s1 = fn_names s" and af1: "attr_fns s1 = attr_fns s"
    and re1: "raise_exceptions s1 = raise_exceptions s"
    using same_setup_trans [OF set0 set1] by (rule same_setup_fields)+
  have sum1: "\<forall>fn \<in> set (fn_names s). \<exists>t. data_values s1 fn = Some t \<and>
                sum_list (map snd t) = length pre"
  proof
    fix fn assume m: "fn \<in> set (fn_names s)"
    with empty0 have e: "data_values ?s0 fn = Some []" by blast
    from run_combinations_sum [OF _ r1 _ e] fn0 dist m
    show "\<exists>t. data_values s1 fn = Some t \<and> sum_list (map snd t) = length pre" by simp
  qed
  \<comment> \<open>the methods before the one that reports\<close>
  from fbefore af1 have "\<forall>fn \<in> set fpre. \<exists>g v. attr_fns s1 fn = Some g \<and>
      g (fst (r, c)) (snd (r, c)) = Label v" by simp
  moreover from dom0 dm1 fn0 names have "set fpre \<subseteq> dom (data_values s1)" by auto
  ultimately obtain s2 where
    r2: "run_fns fpre (r, c) s1 = (None, s2)" and de2: "data_exceptions s2 = data_exceptions s1"
    using run_fns_labels [of fpre s1 "(r, c)"] by blast
  from r2 have set2: "same_setup s1 s2" using run_fns_setup [of s1 fpre "(r, c)"] by simp
  then have af2: "attr_fns s2 = attr_fns s1" and re2: "raise_exceptions s2 = raise_exceptions s1"
    by (rule same_setup_fields)+
  from dist names have dpre: "distinct fpre" by simp
  note sum2 = run_fns_sum [OF dpre r2]
  \<comment> \<open>the call that reports\<close>
  from names have fm: "f \<in> set (fn_names s)" by simp
  with empty0 de1 de2 have log: "data_exceptions s2 f = Some []" by simp
  let ?s3 = "s2\<lparr>data_exceptions := (data_exceptions s2)(f \<mapsto> [] @ [?entry])\<rparr>"
  from raise re1 re2 have "raise_exceptions s2" by simp
  with update_exceptions_Some [OF log, of r c]
  have u: "update_exceptions f r c s2 = (Some ?err, ?s3)" by simp
  from unh af1 af2 have "attr_fns s2 f = Some g" by simp
  with unh(2) u have c3: "call_fn f (r, c) s2 = (Some ?err, ?s3)" by (simp add: call_fn_def)
  from r2 c3 have "run_fns (fpre @ f # fpost) (r, c) s1 = (Some ?err, ?s3)"
    by (simp add: run_fns_append)
  with fn1 names have "run_combinations ((r, c) # post) s1 = (Some ?err, ?s3)" by simp
  with r1 have "run_combinations (pre @ (r, c) # post) ?s0 = (Some ?err, ?s3)"
    by (simp add: run_combinations_append)
  with combs have run: "run_all s = (Some ?err, ?s3)" by (simp add: run_all_def)
  have sums: "\<forall>fn \<in> set (fn_names s). \<exists>t. data_values ?s3 fn = Some t \<and>
             sum_list (map snd t) = length pre + (if fn \<in> set fpre then 1 else 0)"
  proof
    fix fn assume m: "fn \<in> set (fn_names s)"
    from sum1 m obtain t1 where t1: "data_values s1 fn = Some t1"
      "sum_list (map snd t1) = length pre" by blast
    show "\<exists>t. data_values ?s3 fn = Some t \<and>
             sum_list (map snd t) = length pre + (if fn \<in> set fpre then 1 else 0)"
    proof (cases "fn \<in> set fpre")
      case True
      with sum2 obtain t t' where "data_values s1 fn = Some t" "data_values s2 fn = Some t'"
        "sum_list (map snd t') = sum_list (map snd t) + 1" by blast
      with t1 True show ?thesis by simp
    next
      case False
      with sum2 have "data_values s2 fn = data_values s1 fn" by blast
      with t1 False show ?thesis by simp
    qed
  qed
  have log3: "data_exceptions ?s3 f = Some [?entry]" by simp
  from run have "run_all s =
      (Some (ValueError ''Unhandled record for '{}'. Got opts {}'' [FStr f, FList r]), ?s3)"
    by (simp add: unhandled_template_def)
  with sums log3 show ?thesis by blast
qed

lemma strict_demo_run:
  "data_values (snd (run_all strict_demo)) ''fn_is_zero'' = Some [(PyBool True, 1), (PyBool False, 1)]"
  "data_values (snd (run_all strict_demo)) ''fn_sign'' = Some [(PyStr ''zero'', 1)]"
  by (simp_all add: strict_demo_def tally_demo_def run_defs)

text \<open>The run over \<open>(0,), (1,), (1,)\<close> stops at the second combination, in \<open>fn_sign\<close>,
  after \<open>fn_is_zero\<close> has counted it.\<close>

theorem run_all_aborts_at_first_unhandled_witness:
  "fst (run_all strict_demo) =
     Some (ValueError ''Unhandled record for '{}'. Got opts {}''
            [FStr ''fn_sign'', FList [PyInt 1]])
   \<and> data_exceptions (snd (run_all strict_demo)) ''fn_sign'' = Some [RecordOnly [PyInt 1]]
   \<and> data_values (snd (run_all strict_demo)) ''fn_is_zero'' =
       Some [(PyBool True, 1), (PyBool False, 1)]
   \<and> data_values (snd (run_all strict_demo)) ''fn_sign'' = Some [(PyStr ''zero'', 1)]"
proof -
  have "\<exists>s'. run_all strict_demo =
          (Some (ValueError ''Unhandled record for '{}'. Got opts {}''
            [FStr ''fn_sign'', FList [PyInt 1]]), s')
       \<and> (\<forall>fn \<in> set (fn_names strict_demo). \<exists>t. data_values s' fn = Some t \<and>
             sum_list (map snd t) =
               length [([PyInt 0], None :: nat option)] + (if fn \<in> set [''fn_is_zero''] then 1 else 0))
       \<and> data_exceptions s' ''fn_sign'' =
             Some [case None of Some sv \<Rightarrow> WithVisit [PyInt 1] sv | None \<Rightarrow> RecordOnly [PyInt 1]]"
  proof (rule run_all_aborts_at_first_unhandled
      [where post = "[([PyInt 1], Some 11)]" and fpost = "[]" and g = fn_sign and v = PyNone])
    show "raise_exceptions strict_demo" by (simp add: strict_demo_def)
    show "distinct (fn_names strict_demo)"
      by (simp add: strict_demo_def tally_demo_def bare_review_def)
    show "fst (combinations strict_demo) =
            [([PyInt 0], None)] @ ([PyInt 1], None) # [([PyInt 1], Some 11)]"
      by (simp add: strict_demo_def tally_demo_def bare_review_def)
    show "\<forall>comb \<in> set [([PyInt 0], None)]. \<forall>fn \<in> set (fn_names strict_demo).
            \<exists>g v. attr_fns strict_demo fn = Some g \<and> g (fst comb) (snd comb) = Label v"
      by (simp add: strict_demo_def tally_demo_def bare_review_def fn_is_zero_def fn_sign_def)
    show "fn_names strict_demo = [''fn_is_zero''] @ ''fn_sign'' # []"
      by (simp add: strict_demo_def tally_demo_def bare_review_def)
    show "\<forall>fn \<in> set [''fn_is_zero'']. \<exists>g v. attr_fns strict_demo fn = Some g \<and>
            g [PyInt 1] None = Label v"
      by (simp add: strict_demo_def tally_demo_def bare_review_def fn_is_zero_def)
    show "attr_fns strict_demo ''fn_sign'' = Some fn_sign"
      by (simp add: strict_demo_def tally_demo_def bare_review_def)
    show "fn_sign [PyInt 1] None = Unhandled PyNone" by (simp add: fn_sign_def)
  qed
  then obtain s' where
    "run_all strict_demo =
       (Some (ValueError ''Unhandled record for '{}'. Got opts {}''
            [FStr ''fn_sign'', FList [PyInt 1]]), s')"
    "data_exceptions s' ''fn_sign'' = Some [RecordOnly [PyInt 1]]" by auto
  then show ?thesis using strict_demo_run by simp
qed

section \<open>The exception log\<close>

text \<open>
  C5 (amended). When \<open>raise_exceptions\<close> is set, \<open>update_exceptions\<close> for a method that has
  a log first appends the entry for the combination to that log and then raises the
  \<open>ValueError\<close>: on the abort the log holds the unhandled combination as its last entry.
\<close>

theorem update_exceptions_raises_after_append:
  assumes "raise_exceptions s" and "data_exceptions s fn_name = Some log"
  shows "update_exceptions fn_name r c s =
           (Some (ValueError unhandled_template [FStr fn_name, FList r]),
            s\<lparr>data_exceptions := (data_exceptions s)(fn_name \<mapsto>
                 log @ [case c of Some sv \<Rightarrow> WithVisit r sv | None \<Rightarrow> RecordOnly r])\<rparr>)"
  using assms by (simp add: update_exceptions_def)

theorem update_exceptions_raises_after_append_witness:
  "update_exceptions ''fn_sign'' [PyInt 1] (Some 11) armed =
     (Some (ValueError unhandled_template [FStr ''fn_sign'', FList [PyInt 1]]),
      armed\<lparr>data_exceptions := (data_exceptions armed)(''fn_sign'' \<mapsto> [WithVisit [PyInt 1] 11])\<rparr>)"
  using update_exceptions_raises_after_append [of armed "''fn_sign''" "[]" "[PyInt 1]" "Some 11"]
  by (simp add: armed_def)

text \<open>C5 as stated fails: the call raises and the log has changed, from empty to one
  entry.\<close>

theorem update_exceptions_log_changed:
  "fst (update_exceptions ''fn_sign'' [PyInt 1] None armed) =
     Some (ValueError unhandled_template [FStr ''fn_sign'', FList [PyInt 1]])
   \<and> data_exceptions armed ''fn_sign'' = Some []
   \<and> data_exceptions (snd (update_exceptions ''fn_sign'' [PyInt 1] None armed)) ''fn_sign'' =
       Some [RecordOnly [PyInt 1]]
   \<and> data_exceptions (snd (update_exceptions ''fn_sign'' [PyInt 1] None armed)) \<noteq>
       data_exceptions armed"
proof -
  have a: "fst (update_exceptions ''fn_sign'' [PyInt 1] None armed) =
     Some (ValueError unhandled_template [FStr ''fn_sign'', FList [PyInt 1]])"
    and b: "data_exceptions armed ''fn_sign'' = Some []"
    and c: "data_exceptions (snd (update_exceptions ''fn_sign'' [PyInt 1] None armed)) ''fn_sign'' =
       Some [RecordOnly [PyInt 1]]"
    by (simp_all add: update_exceptions_def armed_def bare_review_def)
  from b c have "data_exceptions (snd (update_exceptions ''fn_sign'' [PyInt 1] None armed)) \<noteq>
       data_exceptions armed" by auto
  with a b c show ?thesis by blast
qed

text \<open>
  C7 (amended). \<open>update_exceptions\<close> for a method that has a log appends one entry to that
  log and leaves the other logs alone: the pair of the record's values and the subject
  visit when a subject visit is given, and the list of the record's values alone when none
  is given (a combination that was generated).
\<close>

theorem update_exceptions_entry:
  assumes "data_exceptions s fn_name = Some log"
  shows "data_exceptions (snd (update_exceptions fn_name r c s)) fn_name =
           Some (log @ [case c of Some sv \<Rightarrow> WithVisit r sv | None \<Rightarrow> RecordOnly r])
       \<and> (\<forall>g. g \<noteq> fn_name \<longrightarrow>
            data_exceptions (snd (update_exceptions fn_name r c s)) g = data_exceptions s g)"
  by (simp add: update_exceptions_Some [OF assms])

theorem update_exceptions_entry_witness:
  "data_exceptions (snd (update_exceptions ''fn_sign'' [PyInt 1] (Some 11) logging)) ''fn_sign'' =
     Some [WithVisit [PyInt 1] 11]
   \<and> data_exceptions (snd (update_exceptions ''fn_sign'' [PyInt 1] (Some 11) logging)) ''fn_other'' =
       None"
  using update_exceptions_entry [of logging "''fn_sign''" "[]" "[PyInt 1]" "Some 11"]
  by (simp add: logging_def bare_review_def)

text \<open>C7 as stated fails for a call without a subject visit: the entry appended is the bare
  list of values, not a pair.\<close>

theorem update_exceptions_bare_entry:
  "update_exceptions ''fn_sign'' [PyInt 1] None logging =
     (None, logging\<lparr>data_exceptions := [''fn_sign'' \<mapsto> [RecordOnly [PyInt 1]]]\<rparr>)"
  by (simp add: update_exceptions_def logging_def bare_review_def)

section \<open>The constructor's flag\<close>

lemma new_review_flag:
  "raise_exceptions (new_review k a) = (arg_raise_exceptions a = PyBool True)"
  by (simp add: new_review_def Let_def)

lemma init_setup: "init k a = Inr s \<Longrightarrow> same_setup (new_review k a) s"
proof -
  assume i: "init k a = Inr s"
  show ?thesis
  proof (cases "truthy (arg_run_all a)")
    case True
    with i have "snd (run_all (new_review k a)) = s"
      by (auto simp: init_def split: if_splits prod.splits option.splits)
    with run_all_setup [of "new_review k a"] show ?thesis by simp
  next
    case False
    with i have "s = new_review k a" by (auto simp: init_def split: if_splits)
    then show ?thesis by (simp add: same_setup_refl)
  qed
qed

lemma update_exceptions_quiet:
  "\<not> raise_exceptions s \<Longrightarrow>
   fst (update_exceptions fn_name r c s) =
     (if fn_name \<in> dom (data_exceptions s) then None else Some (KeyError (FStr fn_name)))"
  by (cases "data_exceptions s fn_name")
     (auto simp: update_exceptions_None update_exceptions_Some)

lemma increment_counter_error:
  "fst (increment_counter v f s) \<noteq> Some (ValueError t args)"
  by (cases "data_values s f") (simp_all add: increment_counter_None increment_counter_Some)

lemma call_fn_quiet:
  assumes "\<not> raise_exceptions s"
  shows "fst (call_fn f comb s) \<noteq> Some (ValueError t args)"
proof (cases "attr_fns s f")
  case None
  then show ?thesis by (simp add: call_fn_def)
next
  case (Some g)
  show ?thesis
  proof (cases "g (fst comb) (snd comb)")
    case (Label v)
    with Some show ?thesis by (simp add: call_fn_def increment_counter_error)
  next
    case (Unhandled v)
    obtain e s1 where u: "update_exceptions f (fst comb) (snd comb) s = (e, s1)"
      by (cases "update_exceptions f (fst comb) (snd comb) s")
    with update_exceptions_quiet [OF assms, of f "fst comb" "snd comb"]
    have e: "e = None \<or> e = Some (KeyError (FStr f))" by (auto split: if_splits)
    with Some Unhandled u show ?thesis
      by (auto simp: call_fn_def increment_counter_error)
  qed
qed

lemma run_fns_quiet:
  "\<not> raise_exceptions s \<Longrightarrow> fst (run_fns fs comb s) \<noteq> Some (ValueError t args)"
proof (induction fs arbitrary: s)
  case Nil
  show ?case by simp
next
  case (Cons f fs)
  obtain e s1 where c: "call_fn f comb s = (e, s1)" by (cases "call_fn f comb s")
  then have "same_setup s s1" using call_fn_setup [of s f comb] by simp
  then have "raise_exceptions s1 = raise_exceptions s" by (rule same_setup_fields)
  with Cons.prems have q: "\<not> raise_exceptions s1" by simp
  from c call_fn_quiet [OF Cons.prems, of f comb t args]
  have "e \<noteq> Some (ValueError t args)" by simp
  with c Cons.IH [OF q] show ?case by (cases e) simp_all
qed

lemma run_combinations_quiet:
  "\<not> raise_exceptions s \<Longrightarrow> fst (run_combinations cs s) \<noteq> Some (ValueError t args)"
proof (induction cs arbitrary: s)
  case Nil
  show ?case by simp
next
  case (Cons c cs)
  obtain e s1 where r: "run_fns (fn_names s) c s = (e, s1)"
    by (cases "run_fns (fn_names s) c s")
  then have "same_setup s s1" using run_fns_setup [of s "fn_names s" c] by simp
  then have "raise_exceptions s1 = raise_exceptions s" by (rule same_setup_fields)
  with Cons.prems have q: "\<not> raise_exceptions s1" by simp
  from r run_fns_quiet [OF Cons.prems, of "fn_names s" c t args]
  have "e \<noteq> Some (ValueError t args)" by simp
  with r Cons.IH [OF q] show ?case by (cases e) simp_all
qed

lemma run_all_quiet:
  assumes "\<not> raise_exceptions s" and "snd (combinations s) \<noteq> Some (ValueError t args)"
  shows "fst (run_all s) \<noteq> Some (ValueError t args)"
proof -
  let ?s0 = "reset_tables (fn_names s) s"
  have "same_setup s ?s0" by (rule reset_tables_setup)
  then have "raise_exceptions ?s0 = raise_exceptions s" by (rule same_setup_fields)
  with assms(1) have "\<not> raise_exceptions ?s0" by simp
  from run_combinations_quiet [OF this, of "fst (combinations s)" t args] assms(2)
  show ?thesis by (auto simp: run_all_def split: prod.splits option.splits)
qed

lemma lookup_loop_no_error:
  "distinct (record_fields s) \<Longrightarrow> snd (lookup_loop s found svs) = None"
proof (induction svs arbitrary: found)
  case Nil
  show ?case by simp
next
  case (Cons sv svs)
  from values_list_from_total [OF Cons.prems, of sv] obtain vl where
    "values_list_from s sv = Inr vl" by blast
  moreover have "\<And>found'. snd (lookup_loop s found' svs) = None"
    by (rule Cons.IH [OF Cons.prems])
  ultimately show ?case by (cases "py_in vl found") (simp_all add: case_prod_unfold)
qed

lemma generate_combinations_error:
  "snd (generate_combinations s) \<noteq> Some (ValueError t args)"
proof -
  have "\<And>e. collect_opts s fs = Inl e \<Longrightarrow> e \<noteq> ValueError t args" for fs
    by (induction fs) (auto split: option.splits sum.splits)
  then show ?thesis
    by (cases "collect_opts s (record_fields s)") (auto simp: generate_combinations_def)
qed

lemma new_review_source:
  assumes "distinct (record_fields k)"
  shows "snd (combinations (new_review k a)) \<noteq> Some (ValueError t args)"
proof -
  have "\<And>s :: 'a review. distinct (record_fields s) \<Longrightarrow>
          snd (select_combinations a s) \<noteq> Some (ValueError t args)"
    by (auto simp: select_combinations_def lookup_combinations_def lookup_loop_no_error
        generate_combinations_error split: option.splits)
  with assms show ?thesis by (simp add: new_review_def Let_def)
qed

text \<open>
  C10. The object that the constructor returns has \<open>raise_exceptions\<close> set exactly when the
  argument \<open>raise_exceptions\<close> is the boolean \<open>True\<close>. For every other argument, truthy
  ones such as \<open>1\<close> or a non-empty string included, the flag is unset: a run started by the
  constructor does not abort with the \<open>ValueError\<close> of an unhandled record, and on the
  object returned \<open>update_exceptions\<close> raises nothing for a method that has a log (for a
  name without a log the dictionary lookup raises \<open>KeyError\<close>, whatever the flag).
\<close>

theorem init_raise_exceptions_flag:
  "(\<forall>s. init k a = Inr s \<longrightarrow> raise_exceptions s = (arg_raise_exceptions a = PyBool True))
   \<and> (arg_raise_exceptions a \<noteq> PyBool True \<longrightarrow>
        (\<forall>args. init k a \<noteq> Inl (ValueError unhandled_template args))
      \<and> (\<forall>s. init k a = Inr s \<longrightarrow>
            (\<forall>fn_name r c. fst (update_exceptions fn_name r c s) =
               (if fn_name \<in> dom (data_exceptions s) then None
                else Some (KeyError (FStr fn_name))))))"
proof -
  have flag: "\<forall>s. init k a = Inr s \<longrightarrow>
                raise_exceptions s = (arg_raise_exceptions a = PyBool True)"
  proof (intro allI impI)
    fix s assume "init k a = Inr s"
    from same_setup_fields(3) [OF init_setup [OF this]]
    show "raise_exceptions s = (arg_raise_exceptions a = PyBool True)"
      by (simp add: new_review_flag)
  qed
  have quiet: "\<forall>args. init k a \<noteq> Inl (ValueError unhandled_template args)"
    if off: "arg_raise_exceptions a \<noteq> PyBool True"
  proof
    fix args
    show "init k a \<noteq> Inl (ValueError unhandled_template args)"
    proof (cases "distinct (record_fields k)")
      case False
      then show ?thesis by (simp add: init_def unhandled_template_def)
    next
      case True
      from off have "\<not> raise_exceptions (new_review k a)" by (simp add: new_review_flag)
      from run_all_quiet [OF this new_review_source [OF True]]
      have "fst (run_all (new_review k a)) \<noteq> Some (ValueError unhandled_template args)" .
      with True show ?thesis
        by (auto simp: init_def split: prod.splits option.splits)
    qed
  qed
  have log: "\<forall>s. init k a = Inr s \<longrightarrow>
            (\<forall>fn_name r c. fst (update_exceptions fn_name r c s) =
               (if fn_name \<in> dom (data_exceptions s) then None
                else Some (KeyError (FStr fn_name))))"
    if off: "arg_raise_exceptions a \<noteq> PyBool True"
  proof (intro allI impI)
    fix s fn_name r c assume "init k a = Inr s"
    with flag off have "\<not> raise_exceptions s" by simp
    then show "fst (update_exceptions fn_name r c s) =
               (if fn_name \<in> dom (data_exceptions s) then None
                else Some (KeyError (FStr fn_name)))"
      by (rule update_exceptions_quiet)
  qed
  from flag quiet log show ?thesis by blast
qed

lemma demo_init:
  "\<exists>s. init demo_klass demo_args = Inr s \<and>
       data_exceptions s ''fn_sign'' = Some [RecordOnly [PyInt 1]] \<and>
       data_values s ''fn_sign'' = Some [(PyStr ''zero'', 1), (PyNone, 1)]"
  by (simp add: init_def new_review_def select_fn_names_def select_combinations_def
      demo_klass_def demo_args_def generate_combinations_def options_prefix_def
      method_prefix_def startswith_def itertools_product_def product_step_def
      dict_of_pairs_def run_defs)


text \<open>Constructed with \<open>raise_exceptions=1\<close> and \<open>run_all=True\<close>: the run logs the unhandled
  record \<open>(1,)\<close> and completes.\<close>

theorem init_raise_exceptions_flag_witness:
  "truthy (arg_raise_exceptions demo_args)
   \<and> (\<exists>s. init demo_klass demo_args = Inr s \<and> \<not> raise_exceptions s \<and>
          data_exceptions s ''fn_sign'' = Some [RecordOnly [PyInt 1]] \<and>
          fst (update_exceptions ''fn_sign'' [PyInt 0] None s) = None)"
proof -
  from demo_init obtain s where i: "init demo_klass demo_args = Inr s"
    and l: "data_exceptions s ''fn_sign'' = Some [RecordOnly [PyInt 1]]" by blast
  have off: "arg_raise_exceptions demo_args \<noteq> PyBool True" by (simp add: demo_args_def)
  from init_raise_exceptions_flag [of demo_klass demo_args] i off
  have "\<not> raise_exceptions s"
    and "fst (update_exceptions ''fn_sign'' [PyInt 0] None s) =
           (if ''fn_sign'' \<in> dom (data_exceptions s) then None
            else Some (KeyError (FStr ''fn_sign'')))" by blast+
  with l have "\<not> raise_exceptions s \<and> fst (update_exceptions ''fn_sign'' [PyInt 0] None s) = None"
    by auto
  with i l show ?thesis by (auto simp: demo_args_def)
qed

section \<open>Objects returned by the constructor\<close>

lemma dict_set_keys:
  "map fst (dict_set k v d) =
     (if k \<in> set (map fst d) then map fst d else map fst d @ [k])"
  by (induction d) (auto simp: image_iff, force+)

lemma dict_set_distinct: "distinct (map fst d) \<Longrightarrow> distinct (map fst (dict_set k v d))"
  by (simp add: dict_set_keys)

lemma dict_of_pairs_distinct: "distinct (map fst (dict_of_pairs kvs))"
proof -
  have "distinct (map fst d) \<Longrightarrow>
        distinct (map fst (foldl (\<lambda>d (k, v). dict_set k v d) d kvs))" for d :: "('a \<times> 'b) list"
    by (induction kvs arbitrary: d) (auto simp: dict_set_distinct)
  from this [of "[]"] show ?thesis by (simp add: dict_of_pairs_def)
qed

text \<open>The objects that the constructor returns satisfy what the theorems above assume.\<close>

lemma init_well_formed:
  assumes "init k a = Inr s"
  shows "distinct (record_fields s)" "distinct (map fst (models s))"
    "distinct (dir_names k) \<Longrightarrow> distinct (fn_names s)"
proof -
  from init_setup [OF assms] have
    eq: "record_fields s = record_fields (new_review k a)" "models s = models (new_review k a)"
      "fn_names s = fn_names (new_review k a)"
    by (simp_all add: same_setup_def)
  from assms have "distinct (record_fields k)" by (auto simp: init_def split: if_splits)
  with eq show "distinct (record_fields s)" by (simp add: new_review_def Let_def)
  from eq show "distinct (map fst (models s))"
    by (simp add: new_review_def Let_def dict_of_pairs_distinct)
  assume "distinct (dir_names k)"
  with eq show "distinct (fn_names s)"
    by (auto simp: new_review_def Let_def select_fn_names_def split: option.splits)
qed

end
